theory Spec2Isabelle
  imports Main "HOL-Library.Multiset"
begin

section \<open>Strings: the operations of Go's \<open>strings\<close> package used by the checkers\<close>

text \<open>
  A Go string is a byte sequence; it is modelled as \<^typ>\<open>string\<close>.  An index is an
  \<^typ>\<open>int\<close>, because \<open>strings.Index\<close> answers \<open>-1\<close> when there is no occurrence.
\<close>

fun HasPrefix :: "string \<Rightarrow> string \<Rightarrow> bool" where
  "HasPrefix s [] = True"
| "HasPrefix [] (p # ps) = False"
| "HasPrefix (c # cs) (p # ps) = (c = p \<and> HasPrefix cs ps)"

text \<open>\<open>strings.Index(s, sub)\<close>: the index of the first occurrence of \<open>sub\<close> in \<open>s\<close>, or \<open>-1\<close>.\<close>

fun Index :: "string \<Rightarrow> string \<Rightarrow> int" where
  "Index [] sub = (if sub = [] then 0 else - 1)"
| "Index (c # cs) sub =
     (if HasPrefix (c # cs) sub then 0
      else (let r = Index cs sub in if r = - 1 then - 1 else r + 1))"

text \<open>\<open>strings.Contains(s, sub)\<close> is \<open>Index(s, sub) >= 0\<close>.\<close>

definition Contains :: "string \<Rightarrow> string \<Rightarrow> bool" where
  "Contains s sub = (0 \<le> Index s sub)"

text \<open>
  \<open>strings.ToLower\<close> on the letters \<open>A\<close> to \<open>Z\<close>; every other byte is kept.  Go also
  lowers the letters outside ASCII, some of them to an ASCII letter (the Kelvin sign
  \<open>U+212A\<close> to \<open>k\<close>); the model covers the renderings that are ASCII, and a statement
  about \<open>ToLower\<close> below is one about those.
\<close>

definition lowerByte :: "char \<Rightarrow> char" where
  "lowerByte c =
     (case map_of (zip ''ABCDEFGHIJKLMNOPQRSTUVWXYZ'' ''abcdefghijklmnopqrstuvwxyz'') c of
        None \<Rightarrow> c | Some d \<Rightarrow> d)"

definition ToLower :: "string \<Rightarrow> string" where
  "ToLower s = map lowerByte s"

section \<open>Errors\<close>

text \<open>
  A run-time panic of the Go program (a slice expression with inverted bounds, an index
  out of range) is the value \<open>Inl Panic\<close>; a normal return is \<open>Inr\<close>.
\<close>

datatype error = Panic

type_synonym 'a result = "error + 'a"

definition bind :: "'a result \<Rightarrow> ('a \<Rightarrow> 'b result) \<Rightarrow> 'b result" where
  "bind m f = (case m of Inl e \<Rightarrow> Inl e | Inr x \<Rightarrow> f x)"

text \<open>The slice expression \<open>s[lo:hi]\<close>, for indices \<open>0 \<le> lo\<close> and \<open>hi \<le> len(s)\<close>.\<close>

definition slice :: "string \<Rightarrow> int \<Rightarrow> int \<Rightarrow> string result" where
  "slice s lo hi = (if hi < lo then Inl Panic else Inr (take (nat (hi - lo)) (drop (nat lo) s)))"

section \<open>The SSA data model\<close>

text \<open>
  Pointers are modelled by names: a function is named by a \<open>fid\<close>, a basic block by its
  function and its index in that function's block list, an instruction by a number that
  stands for its address.
\<close>

type_synonym fid = string
type_synonym bref = "fid \<times> nat"

record types_Func =
  Name :: string
  FullName :: string

text \<open>
  The declaration data of an \<open>ssa.Function\<close>: its source object (when it has one) and
  the type of its receiver, printed (when it is a method).  Its blocks are found through
  the program.
\<close>

record ssa_Function =
  fn_id :: fid
  Object :: "types_Func option"
  Recv :: "string option"

datatype Value =
    Function ssa_Function
  | MakeClosure ssa_Function
  | Builtin string
  | OtherValue

text \<open>
  An \<open>ssa.CallCommon\<close>.  \<open>Method\<close> is set exactly in invoke mode.  An argument is kept as
  its textual rendering, the only thing the lock checkers read of it.  \<open>Rendering\<close> is
  the result of the \<open>String()\<close> method, which is computed by the SSA printer.
\<close>

record CallCommon =
  CalleeValue :: Value
  Method :: "string option"
  Args :: "string list"
  Rendering :: string

definition IsInvoke :: "CallCommon \<Rightarrow> bool" where
  "IsInvoke c = (Method c \<noteq> None)"

record ssa_Call =
  call_addr :: nat
  call_Block :: bref
  Common :: CallCommon

record ssa_Go =
  go_addr :: nat
  go_Call :: CallCommon

datatype token = ARROW | OtherOp

datatype Operand = OpCall CallCommon | OpOther

record ssa_UnOp =
  unop_addr :: nat
  Op :: token
  X :: Operand

record ssa_Extract =
  ex_addr :: nat
  Tuple :: nat
  ExIndex :: nat

datatype Instruction =
    Call ssa_Call
  | Defer CallCommon
  | Go ssa_Go
  | DebugRef
  | UnOp ssa_UnOp
  | Extract ssa_Extract
  | If nat
  | Jump
  | OtherInstr

text \<open>
  A basic block; successors and predecessors are indices into the block list of the
  parent function.
\<close>

record BasicBlock =
  Instrs :: "Instruction list"
  Succs :: "nat list"
  Preds :: "nat list"

section \<open>Call classification\<close>

text \<open>
  Modelled from the spec: \<open>IsCallTo\<close> of package \<open>lintdsl\<close> is not part of the sources at
  hand.  The spec describes \<open>is_call_to(callsite, qualified_name)\<close> as matching the
  callee's fully-qualified name, and says that a dynamic-dispatch call is never treated
  as a known call.  The name of a callee is computed as in \<open>shortCallName\<close> and
  \<open>_CallName\<close> below.
\<close>

definition CallName :: "CallCommon \<Rightarrow> string" where
  "CallName call =
     (if IsInvoke call then ''''
      else (case CalleeValue call of
              Function v \<Rightarrow> (case Object v of None \<Rightarrow> '''' | Some fn \<Rightarrow> FullName fn)
            | Builtin n \<Rightarrow> n
            | _ \<Rightarrow> ''''))"

definition IsCallTo :: "CallCommon \<Rightarrow> string \<Rightarrow> bool" where
  "IsCallTo call name = (CallName call = name)"

definition shortCallName :: "CallCommon \<Rightarrow> string" where
  "shortCallName call =
     (if IsInvoke call then ''''
      else (case CalleeValue call of
              Function v \<Rightarrow> (case Object v of None \<Rightarrow> '''' | Some fn \<Rightarrow> Name fn)
            | Builtin n \<Rightarrow> n
            | _ \<Rightarrow> ''''))"

definition isCallToLock :: "CallCommon \<Rightarrow> bool" where
  "isCallToLock callCommon =
     (if IsCallTo callCommon ''(*sync.Mutex).Lock'' \<or>
         IsCallTo callCommon ''(*sync.RWMutex).RLock'' \<or>
         IsCallTo callCommon ''(*sync.RWMutex).Lock''
      then True
      else (let callStr = ToLower (Rendering callCommon) in
            if Contains callStr ''.lock('' \<or> Contains callStr ''.rlock(''
            then (if length (Args callCommon) > 1 then False else True)
            else False))"

definition isCallToUnlock :: "CallCommon \<Rightarrow> bool" where
  "isCallToUnlock callCommon =
     (if IsCallTo callCommon ''(*sync.Mutex).Unlock'' \<or>
         IsCallTo callCommon ''(*sync.RWMutex).RUnlock'' \<or>
         IsCallTo callCommon ''(*sync.RWMutex).UnLock''
      then True
      else (let callStr = ToLower (Rendering callCommon) in
            if Contains callStr ''.unlock'' \<or> Contains callStr ''.runlock''
            then True
            else False))"

text \<open>
  The lock key of a call.  The slice \<open>lockStr[start:end]\<close> panics when \<open>end < start\<close>;
  the source guards only against a missing space or dot.
\<close>

definition getLockPrefix :: "ssa_Call \<Rightarrow> string result" where
  "getLockPrefix lockCall =
     (if length (Args (Common lockCall)) < 1 then
        (let lockStr = Rendering (Common lockCall) in
         if Contains lockStr ''invoke'' then
           (let start = Index lockStr '' ''; end = Index lockStr ''.'' in
            if start \<noteq> - 1 \<and> end \<noteq> - 1 then slice lockStr start end
            else Inr (Rendering (Common lockCall)))
         else Inr (Rendering (Common lockCall)))
      else Inr (hd (Args (Common lockCall))))"

section \<open>The program and the services the lock analysis consumes\<close>

text \<open>
  \<open>FuncBlocks\<close> gives the block list of a function (\<open>fn.Blocks\<close>; an external
  function has none).  \<open>DisplayPosition\<close> prints the position of an instruction, given by
  its address.
\<close>

record Program =
  FuncBlocks :: "fid \<Rightarrow> BasicBlock list"
  InitialFunctions :: "ssa_Function list"
  DisplayPosition :: "nat \<Rightarrow> string"

definition blockInstrs :: "Program \<Rightarrow> bref \<Rightarrow> Instruction list" where
  "blockInstrs prog b =
     (let bs = FuncBlocks prog (fst b) in
      if snd b < length bs then Instrs (bs ! snd b) else [])"

text \<open>
  Modelled from the spec: the basic-block call graph of package \<open>bbcallgraph\<close> is not
  part of the sources at hand.  Its nodes are basic blocks, and \<open>create_bb_node(bb)\<close> is
  idempotent: a node is determined by its block.
\<close>

record BBNode =
  BB :: bref

definition CreateBBNode :: "bref \<Rightarrow> BBNode" where
  "CreateBBNode b = \<lparr>BB = b\<rparr>"

text \<open>An edge of the function call graph: the call instruction and the callee.\<close>

record Edge =
  Site :: Instruction
  Callee :: fid

text \<open>
  The services of packages \<open>functions\<close>, \<open>bbcallgraph\<close> and \<open>callgraph\<close>, which are not
  part of the sources at hand, are parameters of the analysis:
  \<^item> \<open>Loops f\<close>: the loops of function \<open>f\<close>, each a set of blocks;
  \<^item> \<open>LockPathSearch src dst key prune\<close>: the lock-path search of the basic-block call
    graph, which answers a path (empty when there is none);
  \<^item> \<open>PathSearchIgnoreGoCall f isEnd\<close>: the path search of the function call graph that
    skips goroutine launches, which answers the call-site edges of a path.
\<close>

record Services =
  Loops :: "fid \<Rightarrow> bref set list"
  LockPathSearch :: "BBNode \<Rightarrow> BBNode \<Rightarrow> string \<Rightarrow> (BBNode \<Rightarrow> bool result) \<Rightarrow> BBNode list result"
  PathSearchIgnoreGoCall :: "fid \<Rightarrow> (fid \<Rightarrow> bool) \<Rightarrow> Edge list"

definition isInLoop :: "Services \<Rightarrow> bref \<Rightarrow> bool" where
  "isInLoop c b = list_ex (\<lambda>set. b \<in> set) (Loops c (fst b))"

section \<open>The double-lock analysis\<close>

text \<open>
  The tests \<open>isCallToUnlock(call.Common()) && getLockPrefix(call) == key\<close> and its
  lock counterpart; the key is derived only when the classification holds.
\<close>

definition isUnlockOfKey :: "ssa_Call \<Rightarrow> string \<Rightarrow> bool result" where
  "isUnlockOfKey call lockKey =
     (if isCallToUnlock (Common call)
      then bind (getLockPrefix call) (\<lambda>k. Inr (k = lockKey))
      else Inr False)"

definition isLockOfKey :: "ssa_Call \<Rightarrow> string \<Rightarrow> bool result" where
  "isLockOfKey call lockKey =
     (if isCallToLock (Common call)
      then bind (getLockPrefix call) (\<lambda>k. Inr (k = lockKey))
      else Inr False)"

text \<open>
  The test \<open>isCallToUnlock(call.Common()) && getLockPrefix(call) == getLockPrefix(fLock)\<close>
  of \<open>isLockToLockInSameBlock\<close>.
\<close>

definition isUnlockOfSameKey :: "ssa_Call \<Rightarrow> ssa_Call \<Rightarrow> bool result" where
  "isUnlockOfSameKey call fLock =
     (if isCallToUnlock (Common call)
      then bind (getLockPrefix call) (\<lambda>k. bind (getLockPrefix fLock) (\<lambda>k'. Inr (k = k')))
      else Inr False)"

text \<open>
  The loop of \<open>isLockToLockInSameBlock\<close> over the instructions from \<open>index\<close> on; the
  state is \<open>(fInstrIndex, sInstrIndex)\<close> (\<open>unlockIndex\<close> is always the current index
  where it is read).  Two call pointers are equal when their addresses are.
\<close>

fun lockToLockLoop :: "ssa_Call \<Rightarrow> ssa_Call \<Rightarrow> Instruction list \<Rightarrow> int \<Rightarrow> int \<times> int \<Rightarrow> bool result" where
  "lockToLockLoop fLock sLock [] index (fInstrIndex, sInstrIndex) =
     Inr (fInstrIndex < sInstrIndex)"
| "lockToLockLoop fLock sLock (ins # rest) index (fInstrIndex, sInstrIndex) =
     (case ins of
        Call call \<Rightarrow>
          (let fInstrIndex' = (if call_addr call = call_addr fLock then index else fInstrIndex);
               sInstrIndex' = (if call_addr call = call_addr sLock then index else sInstrIndex)
           in bind (isUnlockOfSameKey call fLock) (\<lambda>unlock.
                if unlock \<and>
                   ((fInstrIndex' < index \<and> sInstrIndex = - 1 \<and> fInstrIndex' \<noteq> - 1) \<or>
                    (sInstrIndex < index \<and> fInstrIndex' = - 1 \<and> sInstrIndex \<noteq> - 1))
                then Inr False
                else lockToLockLoop fLock sLock rest (index + 1) (fInstrIndex', sInstrIndex')))
      | _ \<Rightarrow> lockToLockLoop fLock sLock rest (index + 1) (fInstrIndex, sInstrIndex))"

definition isLockToLockInSameBlock :: "Program \<Rightarrow> ssa_Call \<Rightarrow> ssa_Call \<Rightarrow> bool result" where
  "isLockToLockInSameBlock prog fLock sLock =
     lockToLockLoop fLock sLock (blockInstrs prog (call_Block fLock)) 0 (- 1, - 1)"

text \<open>The loop of \<open>isUnlockBeforeLock\<close>; the state is \<open>(lockIndex, unLockIndex)\<close>.\<close>

fun unlockBeforeLockLoop :: "string \<Rightarrow> Instruction list \<Rightarrow> int \<Rightarrow> int \<times> int \<Rightarrow> bool result" where
  "unlockBeforeLockLoop lockKey [] index (lockIndex, unLockIndex) =
     Inr (unLockIndex < lockIndex)"
| "unlockBeforeLockLoop lockKey (ins # rest) index (lockIndex, unLockIndex) =
     (case ins of
        Call call \<Rightarrow>
          bind (isUnlockOfKey call lockKey) (\<lambda>unlock.
          bind (isLockOfKey call lockKey) (\<lambda>lock.
            unlockBeforeLockLoop lockKey rest (index + 1)
              (if lock then index else lockIndex, if unlock then index else unLockIndex)))
      | _ \<Rightarrow> unlockBeforeLockLoop lockKey rest (index + 1) (lockIndex, unLockIndex))"

definition isUnlockBeforeLock :: "Program \<Rightarrow> BBNode \<Rightarrow> string \<Rightarrow> bool result" where
  "isUnlockBeforeLock prog sNode lockKey =
     unlockBeforeLockLoop lockKey (blockInstrs prog (BB sNode)) 0 (- 1, - 1)"

text \<open>The first loop of \<open>findPath\<close>: is there no unlock of the key in the block?\<close>

fun noUnlockLoop :: "string \<Rightarrow> Instruction list \<Rightarrow> bool \<Rightarrow> bool result" where
  "noUnlockLoop lockKey [] isNeededSearch = Inr isNeededSearch"
| "noUnlockLoop lockKey (ins # rest) isNeededSearch =
     (case ins of
        Call call \<Rightarrow>
          bind (isUnlockOfKey call lockKey) (\<lambda>unlock.
            noUnlockLoop lockKey rest (if unlock then False else isNeededSearch))
      | _ \<Rightarrow> noUnlockLoop lockKey rest isNeededSearch)"

text \<open>The pruning predicate that \<open>findPath\<close> hands to the lock-path search.\<close>

fun pruneLoop :: "string \<Rightarrow> Instruction list \<Rightarrow> bool result" where
  "pruneLoop lockKey [] = Inr True"
| "pruneLoop lockKey (ins # rest) =
     (case ins of
        Call call \<Rightarrow>
          bind (isUnlockOfKey call lockKey) (\<lambda>unlock.
            if unlock then Inr False
            else bind (isLockOfKey call lockKey) (\<lambda>lock.
              if lock then Inr True else pruneLoop lockKey rest))
      | _ \<Rightarrow> pruneLoop lockKey rest)"

definition findPath :: "Services \<Rightarrow> Program \<Rightarrow> BBNode \<Rightarrow> BBNode \<Rightarrow> string \<Rightarrow> bool result" where
  "findPath c prog fNode sNode lockKey =
     bind (noUnlockLoop lockKey (blockInstrs prog (BB fNode)) True) (\<lambda>isNeededSearch.
     bind (isUnlockBeforeLock prog sNode lockKey) (\<lambda>unlockFirst.
       if isNeededSearch \<and> \<not> unlockFirst then
         bind (LockPathSearch c fNode sNode lockKey
                 (\<lambda>node. pruneLoop lockKey (blockInstrs prog (BB node))))
              (\<lambda>result. Inr (length result > 0))
       else Inr False))"

text \<open>The cross-function part of \<open>_isDoubleLock\<close>, entered when no path was found before.\<close>

definition crossFunction :: "Services \<Rightarrow> Program \<Rightarrow> ssa_Call \<Rightarrow> ssa_Call \<Rightarrow> string \<Rightarrow> bool result" where
  "crossFunction c prog fInstr sInstr lockKey =
     (let fFunc = fst (call_Block fInstr); sFunc = fst (call_Block sInstr);
          pathResult = PathSearchIgnoreGoCall c fFunc (\<lambda>other. other = sFunc)
      in if length pathResult > 0 then
           bind (isUnlockBeforeLock prog (CreateBBNode (call_Block sInstr)) lockKey) (\<lambda>unlockFirst.
             if unlockFirst then Inr False
             else (case Site (hd pathResult) of
                     Call sInstr' \<Rightarrow>
                       (if call_Block fInstr = call_Block sInstr' then
                          bind (isLockToLockInSameBlock prog fInstr sInstr') (\<lambda>r.
                            if r then Inr True else Inr False)
                        else findPath c prog (CreateBBNode (call_Block fInstr))
                               (CreateBBNode (call_Block sInstr')) lockKey)
                   | _ \<Rightarrow> Inr False))
         else Inr False)"

definition isDoubleLock :: "Services \<Rightarrow> Program \<Rightarrow> ssa_Call \<Rightarrow> ssa_Call \<Rightarrow> string \<Rightarrow> bool result" where
  "isDoubleLock c prog fInstr sInstr lockKey =
     (if shortCallName (Common fInstr) \<noteq> shortCallName (Common sInstr) then Inr False
      else
        (let fFunc = fst (call_Block fInstr); sFunc = fst (call_Block sInstr) in
         bind (if call_Block fInstr = call_Block sInstr then
                 bind (isLockToLockInSameBlock prog fInstr sInstr) (\<lambda>same.
                   if \<not> same \<and> isInLoop c (call_Block fInstr)
                   then findPath c prog (CreateBBNode (call_Block fInstr))
                          (CreateBBNode (call_Block sInstr)) lockKey
                   else Inr same)
               else if fFunc = sFunc then
                 findPath c prog (CreateBBNode (call_Block fInstr))
                   (CreateBBNode (call_Block sInstr)) lockKey
               else Inr False)
           (\<lambda>isNotNeedFindPathSearch.
              if \<not> isNotNeedFindPathSearch
              then crossFunction c prog fInstr sInstr lockKey
              else Inr isNotNeedFindPathSearch)))"

section \<open>Goroutines that fail a test\<close>

record Diagnostic =
  node :: Instruction
  message :: string

text \<open>
  Modelled from the spec: \<open>StaticCallee\<close> of package \<open>ssa\<close> and \<open>IsType\<close> of package
  \<open>lintdsl\<close> are not part of the sources at hand.  The spec says that a call-site's
  callee is a static function, a closure over a function, a builtin or a dynamic invoke,
  and that the check is for a static call on a \<open>*testing.common\<close> receiver: the static
  callee is the function called or closed over, and a type is compared by its printed
  form.
\<close>

definition StaticCallee :: "CallCommon \<Rightarrow> ssa_Function option" where
  "StaticCallee c =
     (case CalleeValue c of Function fn \<Rightarrow> Some fn | MakeClosure fn \<Rightarrow> Some fn | _ \<Rightarrow> None)"

definition IsType :: "string \<Rightarrow> string \<Rightarrow> bool" where
  "IsType T name = (T = name)"

text \<open>
  The chain of tests that \<open>CheckConcurrentTesting\<close> makes on a call of the goroutine's
  function: the name of the test-ending method called, if any.
\<close>

definition testFatalName :: "CallCommon \<Rightarrow> string option" where
  "testFatalName call =
     (if IsInvoke call then None
      else (case StaticCallee call of
              None \<Rightarrow> None
            | Some callee \<Rightarrow>
                (case Recv callee of
                   None \<Rightarrow> None
                 | Some recv \<Rightarrow>
                     if \<not> IsType recv ''*testing.common'' then None
                     else (case Object callee of
                             None \<Rightarrow> None
                           | Some fn \<Rightarrow>
                               if Name fn \<in> set [''FailNow'', ''Fatal'', ''Fatalf'', ''SkipNow'', ''Skip'', ''Skipf'']
                               then Some (Name fn) else None))))"

text \<open>The function a \<open>go\<close> instruction starts: the switch on \<open>gostmt.Call.Value\<close>.\<close>

definition goTarget :: "ssa_Go \<Rightarrow> ssa_Function option" where
  "goTarget gostmt =
     (case CalleeValue (go_Call gostmt) of
        Function val \<Rightarrow> Some val | MakeClosure val \<Rightarrow> Some val | _ \<Rightarrow> None)"

text \<open>
  The body of the innermost loop: the report on the \<open>go\<close> instruction that one
  instruction of the goroutine's function gives rise to, if any.
\<close>

definition callReports :: "ssa_Go \<Rightarrow> Instruction \<Rightarrow> Diagnostic list" where
  "callReports gostmt ins =
     (case ins of
        Call call \<Rightarrow>
          (case testFatalName (Common call) of
             None \<Rightarrow> []
           | Some name \<Rightarrow>
               [\<lparr>node = Go gostmt,
                 message = ''the goroutine calls T.'' @ name @
                   '', which must be called in the same goroutine as the test''\<rparr>])
      | _ \<Rightarrow> [])"

definition goroutineReports :: "ssa_Go \<Rightarrow> BasicBlock list \<Rightarrow> Diagnostic list" where
  "goroutineReports gostmt blocks =
     concat (map (\<lambda>block. concat (map (callReports gostmt) (Instrs block))) blocks)"

text \<open>The body of the loop over the instructions of an initial function.\<close>

definition goReports :: "Program \<Rightarrow> Instruction \<Rightarrow> Diagnostic list" where
  "goReports prog ins =
     (case ins of
        Go gostmt \<Rightarrow>
          (case goTarget gostmt of
             None \<Rightarrow> []
           | Some fn \<Rightarrow> goroutineReports gostmt (FuncBlocks prog (fn_id fn)))
      | _ \<Rightarrow> [])"

definition CheckConcurrentTesting :: "Program \<Rightarrow> Diagnostic list" where
  "CheckConcurrentTesting prog =
     concat (map (\<lambda>ssafn.
       concat (map (\<lambda>block. concat (map (goReports prog) (Instrs block)))
         (FuncBlocks prog (fn_id ssafn)))) (InitialFunctions prog))"

text \<open>The instruction is a call of a test-ending method.\<close>

definition isFatalCall :: "Instruction \<Rightarrow> bool" where
  "isFatalCall ins =
     (case ins of Call call \<Rightarrow> testFatalName (Common call) \<noteq> None | _ \<Rightarrow> False)"

section \<open>The double-lock checker\<close>

text \<open>
  The map from lock key to lock instructions of \<open>collectLockInstrs\<close> and
  \<open>CheckDoubleLock\<close>.  Only call instructions are stored in it.
\<close>

type_synonym lockMap = "string \<rightharpoonup> ssa_Call list"

definition lockList :: "lockMap \<Rightarrow> string \<Rightarrow> ssa_Call list" where
  "lockList m k = (case m k of None \<Rightarrow> [] | Some xs \<Rightarrow> xs)"

text \<open>
  The loops of \<open>collectLockInstrs\<close> over the instructions of a block and over the blocks
  of a function.  (The source also prints each lock call to the standard output.)
\<close>

fun collectInstrs :: "Instruction list \<Rightarrow> lockMap \<Rightarrow> lockMap result" where
  "collectInstrs [] result = Inr result"
| "collectInstrs (instr # rest) result =
     (case instr of
        Call call \<Rightarrow>
          (if isCallToLock (Common call)
           then bind (getLockPrefix call) (\<lambda>lockValue.
                  collectInstrs rest (result(lockValue \<mapsto> lockList result lockValue @ [call])))
           else collectInstrs rest result)
      | _ \<Rightarrow> collectInstrs rest result)"

fun collectBlocks :: "BasicBlock list \<Rightarrow> lockMap \<Rightarrow> lockMap result" where
  "collectBlocks [] result = Inr result"
| "collectBlocks (bb # rest) result =
     bind (collectInstrs (Instrs bb) result) (\<lambda>result'. collectBlocks rest result')"

definition collectLockInstrs :: "Program \<Rightarrow> ssa_Function \<Rightarrow> lockMap result" where
  "collectLockInstrs prog function = collectBlocks (FuncBlocks prog (fn_id function)) Map.empty"

text \<open>
  The loop \<open>for lockKey, lockInstrs := range lockResultBB\<close> that appends the locks of one
  function to \<open>lockInstructions\<close>.  It visits every key of the function's map once; the
  updates are to distinct keys, so the order of the visits does not show in the result.
\<close>

definition mergeLocks :: "lockMap \<Rightarrow> lockMap \<Rightarrow> lockMap" where
  "mergeLocks lockInstructions lockResultBB =
     (\<lambda>lockKey. case lockResultBB lockKey of
        None \<Rightarrow> lockInstructions lockKey
      | Some lockInstrs \<Rightarrow> Some (lockList lockInstructions lockKey @ lockInstrs))"

fun collectAll :: "Program \<Rightarrow> ssa_Function list \<Rightarrow> lockMap \<Rightarrow> lockMap result" where
  "collectAll prog [] lockInstructions = Inr lockInstructions"
| "collectAll prog (ssafn # rest) lockInstructions =
     bind (collectLockInstrs prog ssafn) (\<lambda>lockResultBB.
       collectAll prog rest (mergeLocks lockInstructions lockResultBB))"

text \<open>The body of the loops over \<open>i\<close> and \<open>t\<close>: the reports for one pair.\<close>

definition pairReports :: "Services \<Rightarrow> Program \<Rightarrow> string \<Rightarrow> ssa_Call \<Rightarrow> ssa_Call \<Rightarrow> Diagnostic list result" where
  "pairReports c prog lockKey fInstr sInstr =
     bind (isDoubleLock c prog fInstr sInstr lockKey) (\<lambda>first.
     bind (if call_addr fInstr \<noteq> call_addr sInstr
           then isDoubleLock c prog sInstr fInstr lockKey else Inr False) (\<lambda>second.
       Inr ((if first
             then [\<lparr>node = Call fInstr,
                    message = ''Acquiring the '' @ shortCallName (Common fInstr) @ '' again at '' @
                      DisplayPosition prog (call_addr sInstr) @ '', '' @
                      DisplayPosition prog (call_addr fInstr)\<rparr>]
             else []) @
            (if second
             then [\<lparr>node = Call sInstr,
                    message = ''Acquiring the '' @ shortCallName (Common sInstr) @ '' again at '' @
                      DisplayPosition prog (call_addr fInstr) @ '' ''\<rparr>]
             else []))))"

text \<open>The loop over \<open>t\<close>, from \<open>i\<close> on, for the instruction at \<open>i\<close>.\<close>

fun rowReports :: "Services \<Rightarrow> Program \<Rightarrow> string \<Rightarrow> ssa_Call \<Rightarrow> ssa_Call list \<Rightarrow> Diagnostic list result" where
  "rowReports c prog lockKey fInstr [] = Inr []"
| "rowReports c prog lockKey fInstr (sInstr # rest) =
     bind (pairReports c prog lockKey fInstr sInstr) (\<lambda>ds.
     bind (rowReports c prog lockKey fInstr rest) (\<lambda>ds'. Inr (ds @ ds')))"

text \<open>The loop over \<open>i\<close>.\<close>

fun keyReports :: "Services \<Rightarrow> Program \<Rightarrow> string \<Rightarrow> ssa_Call list \<Rightarrow> Diagnostic list result" where
  "keyReports c prog lockKey [] = Inr []"
| "keyReports c prog lockKey (fInstr # rest) =
     bind (rowReports c prog lockKey fInstr (fInstr # rest)) (\<lambda>ds.
     bind (keyReports c prog lockKey rest) (\<lambda>ds'. Inr (ds @ ds')))"

text \<open>
  The loop \<open>for lockKey, lockInstrs := range lockInstructions\<close>.  Go does not specify the
  iteration order of a map; \<open>order\<close> is the order in which this run visits the keys.
\<close>

fun checkKeys :: "Services \<Rightarrow> Program \<Rightarrow> lockMap \<Rightarrow> string list \<Rightarrow> Diagnostic list result" where
  "checkKeys c prog lockInstructions [] = Inr []"
| "checkKeys c prog lockInstructions (lockKey # rest) =
     bind (keyReports c prog lockKey (lockList lockInstructions lockKey)) (\<lambda>ds.
     bind (checkKeys c prog lockInstructions rest) (\<lambda>ds'. Inr (ds @ ds')))"

definition CheckDoubleLock :: "Services \<Rightarrow> Program \<Rightarrow> string list \<Rightarrow> Diagnostic list result" where
  "CheckDoubleLock c prog order =
     bind (collectAll prog (InitialFunctions prog) Map.empty) (\<lambda>lockInstructions.
       checkKeys c prog lockInstructions order)"

section \<open>The stdlib-knowledge pass\<close>

text \<open>
  The pass works on the block list of one function and mutates it in place; the model
  takes the blocks and returns them.  A block is named by its index in the list.
\<close>

text \<open>
  Modelled from the spec: \<open>RemovePred\<close> of package \<open>ssa\<close> is not part of the sources at
  hand.  The spec says that the removal of the edge must also remove the predecessor
  from the dropped successor.
\<close>

definition RemovePred :: "BasicBlock list \<Rightarrow> nat \<Rightarrow> nat \<Rightarrow> BasicBlock list" where
  "RemovePred blocks succ p =
     (if succ < length blocks
      then blocks[succ := (blocks ! succ)\<lparr>Preds := filter (\<lambda>q. q \<noteq> p) (Preds (blocks ! succ))\<rparr>]
      else blocks)"

text \<open>
  The indices, in \<open>block.Instrs\<close>, of the instructions that are not debug references:
  the slice \<open>instrs\<close> of pointers into \<open>block.Instrs\<close>.
\<close>

definition nonDebug :: "Instruction list \<Rightarrow> nat list" where
  "nonDebug instrs = filter (\<lambda>i. instrs ! i \<noteq> DebugRef) [0..<length instrs]"

text \<open>
  The tests of one iteration of \<open>for i, ins := range instrs\<close>: does the pattern
  \<open>UnOp\<close>, \<open>Extract\<close>, \<open>If\<close> start at \<open>i\<close>?  The reads \<open>instrs[i+1]\<close> and \<open>instrs[i+2]\<close>
  panic when out of range.
\<close>

definition matchAt :: "Instruction list \<Rightarrow> nat list \<Rightarrow> nat \<Rightarrow> bool result" where
  "matchAt bInstrs instrs i =
     (case bInstrs ! (instrs ! i) of
        UnOp unop \<Rightarrow>
          if Op unop \<noteq> ARROW then Inr False
          else (case X unop of
                  OpCall call \<Rightarrow>
                    if \<not> IsCallTo call ''time.Tick'' then Inr False
                    else if length instrs \<le> i + 1 then Inl Panic
                    else (case bInstrs ! (instrs ! (i + 1)) of
                            Extract ex \<Rightarrow>
                              if Tuple ex \<noteq> unop_addr unop \<or> ExIndex ex \<noteq> 1 then Inr False
                              else if length instrs \<le> i + 2 then Inl Panic
                              else (case bInstrs ! (instrs ! (i + 2)) of
                                      If cond \<Rightarrow> Inr (cond = ex_addr ex)
                                    | _ \<Rightarrow> Inr False)
                          | _ \<Rightarrow> Inr False)
                | _ \<Rightarrow> Inr False)
      | _ \<Rightarrow> Inr False)"

text \<open>
  The rewrite: the instruction at \<open>p\<close> becomes a jump, the second successor is dropped
  (\<open>block.Succs[1]\<close> panics when there is none) and loses the block as predecessor.
\<close>

definition rewriteAt :: "BasicBlock list \<Rightarrow> nat \<Rightarrow> nat \<Rightarrow> BasicBlock list result" where
  "rewriteAt blocks b p =
     (let block = blocks ! b in
      if length (Succs block) \<le> 1 then Inl Panic
      else (let succ = Succs block ! 1;
                block' = block\<lparr>Instrs := (Instrs block)[p := Jump], Succs := take 1 (Succs block)\<rparr>
            in Inr (RemovePred (blocks[b := block']) succ b)))"

fun scanLoop :: "BasicBlock list \<Rightarrow> nat \<Rightarrow> nat list \<Rightarrow> nat list \<Rightarrow> BasicBlock list result" where
  "scanLoop blocks b instrs [] = Inr blocks"
| "scanLoop blocks b instrs (i # rest) =
     bind (matchAt (Instrs (blocks ! b)) instrs i) (\<lambda>found.
       if found
       then bind (rewriteAt blocks b (instrs ! (i + 2))) (\<lambda>blocks'. scanLoop blocks' b instrs rest)
       else scanLoop blocks b instrs rest)"

definition processBlock :: "BasicBlock list \<Rightarrow> nat \<Rightarrow> BasicBlock list result" where
  "processBlock blocks b =
     (let block = blocks ! b in
      if length (Instrs block) < 3 then Inr blocks
      else if length (Succs block) \<noteq> 2 then Inr blocks
      else (let instrs = nonDebug (Instrs block) in
            scanLoop blocks b instrs [0..<length instrs]))"

fun blocksLoop :: "BasicBlock list \<Rightarrow> nat list \<Rightarrow> BasicBlock list result" where
  "blocksLoop blocks [] = Inr blocks"
| "blocksLoop blocks (b # rest) =
     bind (processBlock blocks b) (\<lambda>blocks'. blocksLoop blocks' rest)"

definition applyStdlibKnowledge :: "BasicBlock list \<Rightarrow> BasicBlock list result" where
  "applyStdlibKnowledge blocks =
     (if length blocks = 0 then Inr blocks
      else blocksLoop blocks [0..<length blocks])"

section \<open>Reference definitions\<close>





text \<open>A call in call mode, for the concrete examples.\<close>

definition mkCall :: "nat \<Rightarrow> bref \<Rightarrow> Value \<Rightarrow> string list \<Rightarrow> string \<Rightarrow> ssa_Call" where
  "mkCall a b v as r =
     \<lparr>call_addr = a, call_Block = b,
      Common = \<lparr>CalleeValue = v, Method = None, Args = as, Rendering = r\<rparr>\<rparr>"

text \<open>A static callee with a source object.\<close>

definition staticFn :: "fid \<Rightarrow> string \<Rightarrow> string \<Rightarrow> string option \<Rightarrow> Value" where
  "staticFn f short full recv =
     Function \<lparr>fn_id = f, Object = Some \<lparr>Name = short, FullName = full\<rparr>, Recv = recv\<rparr>"

text \<open>
  Instruction \<open>n\<close> of a block is an unlock call (a lock call) of key \<open>k\<close>: the test the
  analysis makes on each call instruction.
\<close>

definition unlockAt :: "Instruction list \<Rightarrow> string \<Rightarrow> nat \<Rightarrow> bool" where
  "unlockAt instrs k n =
     (n < length instrs \<and>
      (case instrs ! n of
         Call c \<Rightarrow> isCallToUnlock (Common c) \<and> getLockPrefix c = Inr k
       | _ \<Rightarrow> False))"

definition lockAt :: "Instruction list \<Rightarrow> string \<Rightarrow> nat \<Rightarrow> bool" where
  "lockAt instrs k n =
     (n < length instrs \<and>
      (case instrs ! n of
         Call c \<Rightarrow> isCallToLock (Common c) \<and> getLockPrefix c = Inr k
       | _ \<Rightarrow> False))"

text \<open>The key of every call of a block can be derived: no key derivation panics.\<close>

definition keysDerivable :: "Instruction list \<Rightarrow> bool" where
  "keysDerivable instrs = list_all (\<lambda>ins. case ins of Call c \<Rightarrow> getLockPrefix c \<noteq> Inl Panic | _ \<Rightarrow> True) instrs"

definition isUnlockIns :: "string \<Rightarrow> Instruction \<Rightarrow> bool" where
  "isUnlockIns k ins =
     (case ins of Call c \<Rightarrow> isCallToUnlock (Common c) \<and> getLockPrefix c = Inr k | _ \<Rightarrow> False)"

definition isLockIns :: "string \<Rightarrow> Instruction \<Rightarrow> bool" where
  "isLockIns k ins =
     (case ins of Call c \<Rightarrow> isCallToLock (Common c) \<and> getLockPrefix c = Inr k | _ \<Rightarrow> False)"

text \<open>The instruction is the call at address \<open>a\<close>.\<close>

definition isAddr :: "nat \<Rightarrow> Instruction \<Rightarrow> bool" where
  "isAddr a ins = (case ins of Call c \<Rightarrow> call_addr c = a | _ \<Rightarrow> False)"

text \<open>
  The index (counted from \<open>base\<close>) of the last element that satisfies \<open>P\<close>, or \<open>d\<close> when
  there is none: what a loop of the form \<open>if P(x) { idx = index }\<close> leaves in \<open>idx\<close>.
\<close>

fun lastIdx :: "('a \<Rightarrow> bool) \<Rightarrow> 'a list \<Rightarrow> int \<Rightarrow> int \<Rightarrow> int" where
  "lastIdx P [] base d = d"
| "lastIdx P (x # xs) base d = lastIdx P xs (base + 1) (if P x then base else d)"

subsection \<open>Concrete calls, blocks and programs\<close>

text \<open>
  A static call of \<open>(*sync.Mutex).Lock\<close> and of \<open>(*sync.Mutex).Unlock\<close> on the receiver
  rendered \<open>recv\<close>, as the SSA printer renders them.
\<close>

definition mutexLock :: "nat \<Rightarrow> bref \<Rightarrow> string \<Rightarrow> ssa_Call" where
  "mutexLock a b recv =
     mkCall a b (staticFn ''(*sync.Mutex).Lock'' ''Lock'' ''(*sync.Mutex).Lock'' (Some ''*sync.Mutex''))
       [recv] (''(*sync.Mutex).Lock('' @ recv @ '')'')"

definition mutexUnlock :: "nat \<Rightarrow> bref \<Rightarrow> string \<Rightarrow> ssa_Call" where
  "mutexUnlock a b recv =
     mkCall a b (staticFn ''(*sync.Mutex).Unlock'' ''Unlock'' ''(*sync.Mutex).Unlock'' (Some ''*sync.Mutex''))
       [recv] (''(*sync.Mutex).Unlock('' @ recv @ '')'')"

text \<open>A program whose only function \<open>f\<close> has one block, with successors \<open>succs\<close>.\<close>

definition oneBlockProgram :: "fid \<Rightarrow> Instruction list \<Rightarrow> nat list \<Rightarrow> Program" where
  "oneBlockProgram f instrs succs =
     \<lparr>FuncBlocks = (\<lambda>g. if g = f then [\<lparr>Instrs = instrs, Succs = succs, Preds = succs\<rparr>] else []),
      InitialFunctions = [\<lparr>fn_id = f, Object = None, Recv = None\<rparr>],
      DisplayPosition = (\<lambda>a. ''pos'')\<rparr>"

text \<open>The block \<open>t0.Lock(); t0.Unlock(); t0.Lock(); t0.Lock()\<close>.\<close>

definition lockUnlockLockLock :: "Instruction list" where
  "lockUnlockLockLock =
     [Call (mutexLock 1 (''main.f'', 0) ''t0''), Call (mutexUnlock 2 (''main.f'', 0) ''t0''),
      Call (mutexLock 3 (''main.f'', 0) ''t0''), Call (mutexLock 4 (''main.f'', 0) ''t0'')]"

text \<open>
  The block \<open>unlockMu.Lock(); unlockMu.Lock()\<close> on a package-level mutex named
  \<open>unlockMu\<close> of package \<open>main\<close>.
\<close>

definition lockLockUnlockMu :: "Instruction list" where
  "lockLockUnlockMu =
     [Call (mutexLock 1 (''main.f'', 0) ''main.unlockMu''),
      Call (mutexLock 2 (''main.f'', 0) ''main.unlockMu'')]"



text \<open>
  Function \<open>f\<close> locks \<open>t0\<close> and then calls \<open>g\<close>; \<open>g\<close> locks \<open>t0\<close>.  Neither unlocks.  The
  function call graph has the one edge from \<open>f\<close> to \<open>g\<close>, at the call in \<open>f\<close>.
\<close>

definition callG :: ssa_Call where
  "callG = mkCall 5 (''main.f'', 0) (staticFn ''main.g'' ''g'' ''main.g'' None) [] ''main.g()''"

definition lockThenCall :: "Instruction list" where
  "lockThenCall = [Call (mutexLock 4 (''main.f'', 0) ''t0''), Call callG]"

definition lockOnly :: "Instruction list" where
  "lockOnly = [Call (mutexLock 6 (''main.g'', 0) ''t0'')]"

definition callerCallee :: Program where
  "callerCallee =
     \<lparr>FuncBlocks = (\<lambda>f.
        if f = ''main.f'' then [\<lparr>Instrs = lockThenCall, Succs = [], Preds = []\<rparr>]
        else if f = ''main.g'' then [\<lparr>Instrs = lockOnly, Succs = [], Preds = []\<rparr>]
        else []),
      InitialFunctions =
        [\<lparr>fn_id = ''main.f'', Object = Some \<lparr>Name = ''f'', FullName = ''main.f''\<rparr>, Recv = None\<rparr>,
         \<lparr>fn_id = ''main.g'', Object = Some \<lparr>Name = ''g'', FullName = ''main.g''\<rparr>, Recv = None\<rparr>],
      DisplayPosition = (\<lambda>a. ''pos'')\<rparr>"

definition callGraphFG :: "fid \<Rightarrow> (fid \<Rightarrow> bool) \<Rightarrow> Edge list" where
  "callGraphFG f isEnd =
     (if f = ''main.f'' \<and> isEnd ''main.g'' then [\<lparr>Site = Call callG, Callee = ''main.g''\<rparr>] else [])"

text \<open>The body of \<open>for { t0.Lock() }\<close>: one block that jumps to itself.\<close>

definition lockInLoop :: "Instruction list" where
  "lockInLoop = [Call (mutexLock 1 (''main.f'', 0) ''t0''), Jump]"

text \<open>The blocks of function \<open>f\<close> hold a call of a test-ending method.\<close>

definition containsFatalCall :: "Program \<Rightarrow> fid \<Rightarrow> bool" where
  "containsFatalCall prog f =
     list_ex (\<lambda>block. list_ex isFatalCall (Instrs block)) (FuncBlocks prog f)"

text \<open>
  The instruction stands in a block of an initial function.
\<close>

definition inInitialFunction :: "Program \<Rightarrow> Instruction \<Rightarrow> bool" where
  "inInitialFunction prog ins =
     list_ex (\<lambda>ssafn. list_ex (\<lambda>block. ins \<in> set (Instrs block)) (FuncBlocks prog (fn_id ssafn)))
       (InitialFunctions prog)"

text \<open>
  The claim's reading: function \<open>f\<close> transitively contains a call of a test-ending
  method, in its own blocks or in those of a function it calls statically.
\<close>

inductive transitivelyContainsFatalCall :: "Program \<Rightarrow> fid \<Rightarrow> bool" where
  own: "containsFatalCall prog f \<Longrightarrow> transitivelyContainsFatalCall prog f"
| callee: "block \<in> set (FuncBlocks prog f) \<Longrightarrow> Call call \<in> set (Instrs block) \<Longrightarrow>
     StaticCallee (Common call) = Some g \<Longrightarrow> transitivelyContainsFatalCall prog (fn_id g) \<Longrightarrow>
     transitivelyContainsFatalCall prog f"

text \<open>
  A test \<open>TestX\<close> that starts \<open>target\<close> as a goroutine, a function \<open>worker\<close> that calls
  \<open>helper\<close>, and \<open>helper\<close>, which calls \<open>t.Fatal\<close>.
\<close>

definition userFn :: "fid \<Rightarrow> string \<Rightarrow> ssa_Function" where
  "userFn f short = \<lparr>fn_id = f, Object = Some \<lparr>Name = short, FullName = f\<rparr>, Recv = None\<rparr>"

definition fatalCall :: "nat \<Rightarrow> bref \<Rightarrow> ssa_Call" where
  "fatalCall a b =
     mkCall a b (staticFn ''(*testing.common).Fatal'' ''Fatal'' ''(*testing.common).Fatal'' (Some ''*testing.common''))
       [''t'', ''t1''] ''(*testing.common).Fatal(t, t1...)''"

definition helperCall :: "nat \<Rightarrow> bref \<Rightarrow> ssa_Call" where
  "helperCall a b = mkCall a b (Function (userFn ''main.helper'' ''helper'')) [''t''] ''main.helper(t)''"

definition goStmt :: "nat \<Rightarrow> ssa_Function \<Rightarrow> ssa_Go" where
  "goStmt a fn =
     \<lparr>go_addr = a,
      go_Call = \<lparr>CalleeValue = Function fn, Method = None, Args = [''t''], Rendering = fn_id fn @ ''(t)''\<rparr>\<rparr>"

definition testProgram :: "ssa_Function \<Rightarrow> Program" where
  "testProgram target =
     \<lparr>FuncBlocks = (\<lambda>f.
        if f = ''main.TestX'' then [\<lparr>Instrs = [Go (goStmt 1 target), Jump], Succs = [], Preds = []\<rparr>]
        else if f = ''main.worker'' then [\<lparr>Instrs = [Call (helperCall 2 (''main.worker'', 0))], Succs = [], Preds = []\<rparr>]
        else if f = ''main.helper'' then [\<lparr>Instrs = [Call (fatalCall 3 (''main.helper'', 0))], Succs = [], Preds = []\<rparr>]
        else []),
      InitialFunctions = [userFn ''main.TestX'' ''TestX'', userFn ''main.worker'' ''worker'', userFn ''main.helper'' ''helper''],
      DisplayPosition = (\<lambda>a. ''pos'')\<rparr>"

text \<open>
  The lock calls of a list of instructions, of a function and of a list of functions, in
  the order of the traversal: function order, then block order, then instruction index.
\<close>

definition lockCallsOfInstrs :: "Instruction list \<Rightarrow> ssa_Call list" where
  "lockCallsOfInstrs instrs =
     concat (map (\<lambda>ins. case ins of Call call \<Rightarrow> (if isCallToLock (Common call) then [call] else []) | _ \<Rightarrow> []) instrs)"

definition lockCallsOfBlocks :: "BasicBlock list \<Rightarrow> ssa_Call list" where
  "lockCallsOfBlocks blocks = concat (map (\<lambda>bb. lockCallsOfInstrs (Instrs bb)) blocks)"

definition lockCallsOf :: "Program \<Rightarrow> ssa_Function list \<Rightarrow> ssa_Call list" where
  "lockCallsOf prog fns = concat (map (\<lambda>fn. lockCallsOfBlocks (FuncBlocks prog (fn_id fn))) fns)"

text \<open>The calls with key \<open>k\<close>.\<close>

definition withKey :: "string \<Rightarrow> ssa_Call list \<Rightarrow> ssa_Call list" where
  "withKey k calls = filter (\<lambda>call. getLockPrefix call = Inr k) calls"

text \<open>The block \<open>t0.Lock(); t1.Lock(); t0.Lock(); t1.Lock()\<close>.\<close>

definition twoMutexes :: "Instruction list" where
  "twoMutexes =
     [Call (mutexLock 1 (''main.f'', 0) ''t0''), Call (mutexLock 2 (''main.f'', 0) ''t1''),
      Call (mutexLock 3 (''main.f'', 0) ''t0''), Call (mutexLock 4 (''main.f'', 0) ''t1'')]"

text \<open>Services of a function without loops and without calls to user functions.\<close>

definition noServices :: Services where
  "noServices =
     \<lparr>Loops = (\<lambda>f. []),
      LockPathSearch = (\<lambda>src dst key prune. Inr []),
      PathSearchIgnoreGoCall = (\<lambda>f isEnd. [])\<rparr>"

text \<open>The report on a lock that is acquired again, at the positions of the example program.\<close>

definition lockReport :: "ssa_Call \<Rightarrow> Diagnostic" where
  "lockReport fInstr = \<lparr>node = Call fInstr, message = ''Acquiring the Lock again at pos, pos''\<rparr>"

text \<open>A block on which the pass does nothing: it is skipped, or no iteration finds the
  pattern or panics.\<close>

definition quiet :: "BasicBlock \<Rightarrow> bool" where
  "quiet block =
     (length (Instrs block) < 3 \<or> length (Succs block) \<noteq> 2 \<or>
      list_all (\<lambda>i. matchAt (Instrs block) (nonDebug (Instrs block)) i = Inr False)
        [0..<length (nonDebug (Instrs block))])"

text \<open>
  The blocks of \<open>for range time.Tick(t0) { ... }\<close>: the head receives from the channel
  and branches on \<open>ok\<close>; the body jumps back; the exit block is never reached.
\<close>

definition tickCall :: CallCommon where
  "tickCall =
     \<lparr>CalleeValue = staticFn ''time.Tick'' ''Tick'' ''time.Tick'' None,
      Method = None, Args = [''t0''], Rendering = ''time.Tick(t0)''\<rparr>"

definition tickLoop :: "BasicBlock list" where
  "tickLoop =
     [\<lparr>Instrs = [Call \<lparr>call_addr = 9, call_Block = (''main.f'', 0), Common = tickCall\<rparr>,
                 DebugRef,
                 UnOp \<lparr>unop_addr = 10, Op = ARROW, X = OpCall tickCall\<rparr>,
                 Extract \<lparr>ex_addr = 11, Tuple = 10, ExIndex = 1\<rparr>,
                 If 11],
       Succs = [1, 2], Preds = [1]\<rparr>,
      \<lparr>Instrs = [OtherInstr, Jump], Succs = [0], Preds = [0]\<rparr>,
      \<lparr>Instrs = [OtherInstr], Succs = [], Preds = [0]\<rparr>]"

definition tickLoopRewritten :: "BasicBlock list" where
  "tickLoopRewritten =
     [\<lparr>Instrs = [Call \<lparr>call_addr = 9, call_Block = (''main.f'', 0), Common = tickCall\<rparr>,
                 DebugRef,
                 UnOp \<lparr>unop_addr = 10, Op = ARROW, X = OpCall tickCall\<rparr>,
                 Extract \<lparr>ex_addr = 11, Tuple = 10, ExIndex = 1\<rparr>,
                 Jump],
       Succs = [1], Preds = [1]\<rparr>,
      \<lparr>Instrs = [OtherInstr, Jump], Succs = [0], Preds = [0]\<rparr>,
      \<lparr>Instrs = [OtherInstr], Succs = [], Preds = []\<rparr>]"

section \<open>Properties of the string operations\<close>

lemma HasPrefix_iff: "HasPrefix s p \<longleftrightarrow> (\<exists>post. s = p @ post)"
  by (induction s p rule: HasPrefix.induct) auto

lemma Index_ge_minus_one: "- 1 \<le> Index s sub"
  by (induction s) (auto simp: Let_def)


lemma Index_found_iff: "0 \<le> Index s sub \<longleftrightarrow> (\<exists>pre post. s = pre @ sub @ post)"
proof (induction s)
  case Nil
  then show ?case by auto
next
  case (Cons c cs)
  show ?case
  proof (cases "HasPrefix (c # cs) sub")
    case True
    then obtain post where "c # cs = sub @ post" by (auto simp: HasPrefix_iff)
    then have "c # cs = [] @ sub @ post" by simp
    then have "\<exists>pre post. c # cs = pre @ sub @ post" by blast
    with True show ?thesis by simp
  next
    case False
    have "(\<exists>pre post. c # cs = pre @ sub @ post) \<longleftrightarrow> (\<exists>pre post. cs = pre @ sub @ post)"
    proof
      assume "\<exists>pre post. c # cs = pre @ sub @ post"
      then obtain pre post where e: "c # cs = pre @ sub @ post" by blast
      show "\<exists>pre post. cs = pre @ sub @ post"
      proof (cases pre)
        case Nil
        with e False show ?thesis by (auto simp: HasPrefix_iff)
      next
        case (Cons a pre')
        with e have "cs = pre' @ sub @ post" by simp
        then show ?thesis by blast
      qed
    next
      assume "\<exists>pre post. cs = pre @ sub @ post"
      then obtain pre post where "cs = pre @ sub @ post" by blast
      then have "c # cs = (c # pre) @ sub @ post" by simp
      then show "\<exists>pre post. c # cs = pre @ sub @ post" by blast
    qed
    moreover have "0 \<le> Index (c # cs) sub \<longleftrightarrow> 0 \<le> Index cs sub"
      using False Index_ge_minus_one [of cs sub] by (auto simp: Let_def)
    ultimately show ?thesis using Cons.IH by simp
  qed
qed

lemma Contains_iff: "Contains s sub \<longleftrightarrow> (\<exists>pre post. s = pre @ sub @ post)"
  by (simp add: Contains_def Index_found_iff)

lemma Contains_ToLower: "Contains s sub \<Longrightarrow> Contains (ToLower s) (ToLower sub)"
proof -
  assume "Contains s sub"
  then obtain pre post where "s = pre @ sub @ post" by (auto simp: Contains_iff)
  then have "ToLower s = ToLower pre @ ToLower sub @ ToLower post" by (simp add: ToLower_def)
  then show ?thesis unfolding Contains_iff by blast
qed

lemma Contains_trans: "Contains a b \<Longrightarrow> Contains b c \<Longrightarrow> Contains a c"
proof -
  assume "Contains a b" "Contains b c"
  then obtain p1 q1 p2 q2 where "a = p1 @ b @ q1" "b = p2 @ c @ q2"
    by (auto simp: Contains_iff)
  then have "a = (p1 @ p2) @ c @ (q2 @ q1)" by simp
  then show ?thesis unfolding Contains_iff by blast
qed



lemmas eval_simps =
  mkCall_def staticFn_def getLockPrefix_def Contains_def slice_def ToLower_def lowerByte_def
  isCallToLock_def isCallToUnlock_def IsCallTo_def CallName_def IsInvoke_def shortCallName_def

section \<open>The lock key\<close>













section \<open>Lock and unlock calls\<close>

text \<open>
  Claim C4.  \<open>isCallToLock\<close> holds for every call to \<open>(*sync.Mutex).Lock\<close>,
  \<open>(*sync.RWMutex).RLock\<close> or \<open>(*sync.RWMutex).Lock\<close>; for any other call it holds
  exactly when the lowercased rendering contains \<open>.lock(\<close> or \<open>.rlock(\<close> and the call has
  at most one argument.
\<close>

theorem isCallToLock_iff:
  "isCallToLock c \<longleftrightarrow>
     IsCallTo c ''(*sync.Mutex).Lock'' \<or> IsCallTo c ''(*sync.RWMutex).RLock'' \<or>
     IsCallTo c ''(*sync.RWMutex).Lock'' \<or>
     ((Contains (ToLower (Rendering c)) ''.lock('' \<or> Contains (ToLower (Rendering c)) ''.rlock('')
        \<and> length (Args c) \<le> 1)"
  by (auto simp: isCallToLock_def Let_def)

text \<open>
  Claim C5.  The rendering of a call is computed by the SSA printer from the call
  itself, and the rendering of a static call names its callee (as in the rendering
  \<open>(*sync.Mutex).Unlock(t0)\<close>); this is the hypothesis.  Under it \<open>isCallToUnlock\<close> holds
  for every call to \<open>(*sync.Mutex).Unlock\<close>, \<open>(*sync.RWMutex).RUnlock\<close> or
  \<open>(*sync.RWMutex).Unlock\<close> and for every call whose lowercased rendering contains
  \<open>.unlock\<close> or \<open>.runlock\<close>, and for no other call.  The source compares the callee with
  the name \<open>(*sync.RWMutex).UnLock\<close>; a call to \<open>(*sync.RWMutex).Unlock\<close> is recognised
  through its rendering.
\<close>

theorem isCallToUnlock_iff:
  assumes "Contains (Rendering c) (CallName c)"
  shows "isCallToUnlock c \<longleftrightarrow>
     IsCallTo c ''(*sync.Mutex).Unlock'' \<or> IsCallTo c ''(*sync.RWMutex).RUnlock'' \<or>
     IsCallTo c ''(*sync.RWMutex).Unlock'' \<or>
     Contains (ToLower (Rendering c)) ''.unlock'' \<or> Contains (ToLower (Rendering c)) ''.runlock''"
proof -
  have low: "Contains (ToLower (Rendering c)) ''.unlock''"
    if "Contains (ToLower n) ''.unlock''" "CallName c = n" for n
  proof -
    from assms that have "Contains (ToLower (Rendering c)) (ToLower n)"
      by (auto intro: Contains_ToLower)
    with that show ?thesis by (blast intro: Contains_trans)
  qed
  have a: "Contains (ToLower ''(*sync.RWMutex).UnLock'') ''.unlock''"
    by (simp add: ToLower_def lowerByte_def Contains_def)
  have b: "Contains (ToLower ''(*sync.RWMutex).Unlock'') ''.unlock''"
    by (simp add: ToLower_def lowerByte_def Contains_def)
  show ?thesis
    using low [OF a] low [OF b]
    by (auto simp: isCallToUnlock_def Let_def IsCallTo_def)
qed

text \<open>A call of \<open>(*sync.RWMutex).Unlock\<close> is an unlock call; one of \<open>Lock\<close> is not.\<close>

theorem isCallToUnlock_witness:
  "isCallToUnlock \<lparr>CalleeValue = staticFn ''(*sync.RWMutex).Unlock'' ''Unlock'' ''(*sync.RWMutex).Unlock'' (Some ''*sync.RWMutex''),
      Method = None, Args = [''t0''], Rendering = ''(*sync.RWMutex).Unlock(t0)''\<rparr> \<and>
   \<not> isCallToUnlock \<lparr>CalleeValue = staticFn ''(*sync.RWMutex).Lock'' ''Lock'' ''(*sync.RWMutex).Lock'' (Some ''*sync.RWMutex''),
      Method = None, Args = [''t0''], Rendering = ''(*sync.RWMutex).Lock(t0)''\<rparr>"
proof -
  let ?u = "\<lparr>CalleeValue = staticFn ''(*sync.RWMutex).Unlock'' ''Unlock'' ''(*sync.RWMutex).Unlock'' (Some ''*sync.RWMutex''),
      Method = None, Args = [''t0''], Rendering = ''(*sync.RWMutex).Unlock(t0)''\<rparr>"
  let ?l = "\<lparr>CalleeValue = staticFn ''(*sync.RWMutex).Lock'' ''Lock'' ''(*sync.RWMutex).Lock'' (Some ''*sync.RWMutex''),
      Method = None, Args = [''t0''], Rendering = ''(*sync.RWMutex).Lock(t0)''\<rparr>"
  have hu: "Contains (Rendering ?u) (CallName ?u)"
    by (simp add: staticFn_def CallName_def IsInvoke_def Contains_def)
  have hl: "Contains (Rendering ?l) (CallName ?l)"
    by (simp add: staticFn_def CallName_def IsInvoke_def Contains_def)
  have nu: "IsCallTo ?u ''(*sync.RWMutex).Unlock''"
    by (simp add: staticFn_def IsCallTo_def CallName_def IsInvoke_def)
  have nl: "\<not> (IsCallTo ?l ''(*sync.Mutex).Unlock'' \<or> IsCallTo ?l ''(*sync.RWMutex).RUnlock'' \<or>
     IsCallTo ?l ''(*sync.RWMutex).Unlock'' \<or>
     Contains (ToLower (Rendering ?l)) ''.unlock'' \<or> Contains (ToLower (Rendering ?l)) ''.runlock'')"
    by (simp add: staticFn_def IsCallTo_def CallName_def IsInvoke_def ToLower_def lowerByte_def Contains_def)
  show ?thesis
    using isCallToUnlock_iff [OF hu] isCallToUnlock_iff [OF hl] nu nl by blast
qed

section \<open>The tests on one call instruction\<close>

lemma bind_Inr_iff: "bind m f = Inr r \<longleftrightarrow> (\<exists>x. m = Inr x \<and> f x = Inr r)"
  by (cases m) (auto simp: bind_def)

lemma keysDerivable_iff:
  "keysDerivable instrs \<longleftrightarrow> (\<forall>c. Call c \<in> set instrs \<longrightarrow> (\<exists>k. getLockPrefix c = Inr k))"
proof -
  have "(x \<noteq> Inl Panic) = (\<exists>k. x = Inr k)" for x :: "string result"
    by (cases x) (auto intro: error.exhaust)
  then show ?thesis
    by (auto simp: keysDerivable_def list_all_iff split: Instruction.splits)
qed

lemma keysDerivable_Cons: "keysDerivable (ins # rest) \<Longrightarrow> keysDerivable rest"
  by (simp add: keysDerivable_def)

lemma isUnlockOfKey_Inr:
  "isUnlockOfKey c k = Inr b \<Longrightarrow> b = isUnlockIns k (Call c)"
  by (auto simp: isUnlockOfKey_def isUnlockIns_def bind_def split: if_splits sum.splits)

lemma isLockOfKey_Inr:
  "isLockOfKey c k = Inr b \<Longrightarrow> b = isLockIns k (Call c)"
  by (auto simp: isLockOfKey_def isLockIns_def bind_def split: if_splits sum.splits)

lemma isUnlockOfKey_total:
  "getLockPrefix c = Inr k' \<Longrightarrow> isUnlockOfKey c k = Inr (isUnlockIns k (Call c))"
  by (auto simp: isUnlockOfKey_def isUnlockIns_def bind_def)

lemma isLockOfKey_total:
  "getLockPrefix c = Inr k' \<Longrightarrow> isLockOfKey c k = Inr (isLockIns k (Call c))"
  by (auto simp: isLockOfKey_def isLockIns_def bind_def)

lemma isUnlockOfSameKey_total:
  "getLockPrefix f = Inr k \<Longrightarrow> getLockPrefix c = Inr k' \<Longrightarrow>
   isUnlockOfSameKey c f = Inr (isUnlockIns k (Call c))"
  by (auto simp: isUnlockOfSameKey_def bind_def isUnlockIns_def)

lemma not_Call_tests:
  "(\<And>c. ins \<noteq> Call c) \<Longrightarrow> \<not> isAddr a ins \<and> \<not> isUnlockIns k ins \<and> \<not> isLockIns k ins"
  by (cases ins) (auto simp: isAddr_def isUnlockIns_def isLockIns_def)

lemma unlockAt_alt: "unlockAt instrs k n \<longleftrightarrow> n < length instrs \<and> isUnlockIns k (instrs ! n)"
  by (simp add: unlockAt_def isUnlockIns_def)

lemma lockAt_alt: "lockAt instrs k n \<longleftrightarrow> n < length instrs \<and> isLockIns k (instrs ! n)"
  by (simp add: lockAt_def isLockIns_def)

lemma all_less_Cons:
  "(\<forall>m < length (x # xs). P m ((x # xs) ! m)) \<longleftrightarrow> P 0 x \<and> (\<forall>m < length xs. P (Suc m) (xs ! m))"
proof
  assume a: "\<forall>m < length (x # xs). P m ((x # xs) ! m)"
  have "P 0 x" using a by auto
  moreover have "P (Suc m) (xs ! m)" if "m < length xs" for m
    using a that by (metis Suc_less_eq length_Cons nth_Cons_Suc)
  ultimately show "P 0 x \<and> (\<forall>m < length xs. P (Suc m) (xs ! m))" by blast
next
  assume a: "P 0 x \<and> (\<forall>m < length xs. P (Suc m) (xs ! m))"
  show "\<forall>m < length (x # xs). P m ((x # xs) ! m)"
  proof (intro allI impI)
    fix m assume "m < length (x # xs)"
    then show "P m ((x # xs) ! m)" using a by (cases m) auto
  qed
qed

subsection \<open>The concrete calls\<close>

lemma mutexLock_fields:
  "call_addr (mutexLock a b r) = a" "call_Block (mutexLock a b r) = b"
  "getLockPrefix (mutexLock a b r) = Inr r" "isCallToLock (Common (mutexLock a b r))"
  "shortCallName (Common (mutexLock a b r)) = ''Lock''"
  by (simp_all add: mutexLock_def mkCall_def staticFn_def getLockPrefix_def isCallToLock_def
        IsCallTo_def CallName_def IsInvoke_def shortCallName_def)

lemma mutexUnlock_fields:
  "call_addr (mutexUnlock a b r) = a" "call_Block (mutexUnlock a b r) = b"
  "getLockPrefix (mutexUnlock a b r) = Inr r" "isCallToUnlock (Common (mutexUnlock a b r))"
  by (simp_all add: mutexUnlock_def mkCall_def staticFn_def getLockPrefix_def isCallToUnlock_def
        IsCallTo_def CallName_def IsInvoke_def)

lemma mutexUnlock_not_lock: "\<not> isCallToLock (Common (mutexUnlock a b ''t0''))"
  by (simp add: mutexUnlock_def mkCall_def staticFn_def isCallToLock_def
        IsCallTo_def CallName_def IsInvoke_def ToLower_def lowerByte_def Contains_def)

lemma mutexLock_t0_not_unlock: "\<not> isCallToUnlock (Common (mutexLock a b ''t0''))"
  by (simp add: mutexLock_def mkCall_def staticFn_def isCallToUnlock_def
        IsCallTo_def CallName_def IsInvoke_def ToLower_def lowerByte_def Contains_def)

lemma mutexLock_unlockMu_is_unlock: "isCallToUnlock (Common (mutexLock a b ''main.unlockMu''))"
  by (simp add: mutexLock_def mkCall_def staticFn_def isCallToUnlock_def
        IsCallTo_def CallName_def IsInvoke_def ToLower_def lowerByte_def Contains_def)

lemma oneBlock_instrs: "blockInstrs (oneBlockProgram f instrs succs) (f, 0) = instrs"
  by (simp add: oneBlockProgram_def blockInstrs_def)

lemmas example_simps =
  mutexLock_fields mutexUnlock_fields mutexUnlock_not_lock mutexLock_t0_not_unlock
  mutexLock_unlockMu_is_unlock oneBlock_instrs
  isUnlockOfKey_def isLockOfKey_def isUnlockOfSameKey_def bind_def

lemma lull_kd: "keysDerivable lockUnlockLockLock"
  by (simp add: keysDerivable_def lockUnlockLockLock_def example_simps)

lemma lull_nth:
  "length lockUnlockLockLock = 4"
  "lockUnlockLockLock ! 0 = Call (mutexLock 1 (''main.f'', 0) ''t0'')"
  "lockUnlockLockLock ! 1 = Call (mutexUnlock 2 (''main.f'', 0) ''t0'')"
  "lockUnlockLockLock ! Suc 0 = Call (mutexUnlock 2 (''main.f'', 0) ''t0'')"
  "lockUnlockLockLock ! 2 = Call (mutexLock 3 (''main.f'', 0) ''t0'')"
  "lockUnlockLockLock ! 3 = Call (mutexLock 4 (''main.f'', 0) ''t0'')"
  by (simp_all add: lockUnlockLockLock_def)

lemma lull_addr:
  "m < length lockUnlockLockLock \<Longrightarrow> isAddr a (lockUnlockLockLock ! m) = (a = Suc m)"
proof -
  assume "m < length lockUnlockLockLock"
  then have "m = 0 \<or> m = 1 \<or> m = 2 \<or> m = 3" by (auto simp: lull_nth)
  then show ?thesis by (auto simp: lull_nth isAddr_def example_simps)
qed

section \<open>Two locks in one block\<close>

lemma lockToLockLoop_skip:
  "(\<And>c. ins \<noteq> Call c) \<Longrightarrow>
   lockToLockLoop f s (ins # rest) n (a, b) = lockToLockLoop f s rest (n + 1) (a, b)"
  by (cases ins) auto

lemma lockToLockLoop_result:
  assumes key: "getLockPrefix f = Inr k"
  shows "keysDerivable rest \<Longrightarrow>
     \<forall>m < length rest. isAddr (call_addr f) (rest ! m) = (n + m = i) \<Longrightarrow>
     \<forall>m < length rest. isAddr (call_addr s) (rest ! m) = (n + m = j) \<Longrightarrow>
     i < n + length rest \<Longrightarrow> j < n + length rest \<Longrightarrow>
     lockToLockLoop f s rest (int n) (if i < n then int i else - 1, if j < n then int j else - 1)
       = Inr (i < j \<and> (\<forall>m < length rest. isUnlockIns k (rest ! m) \<longrightarrow> \<not> (i < n + m \<and> n + m \<le> j)))"
proof (induction rest arbitrary: n)
  case Nil
  then show ?case by simp
next
  case (Cons ins rest)
  from Cons.prems(1) have kd: "keysDerivable rest" by (rule keysDerivable_Cons)
  from Cons.prems(2) have fa: "isAddr (call_addr f) ins = (n = i)"
    and fr: "\<forall>m < length rest. isAddr (call_addr f) (rest ! m) = (Suc n + m = i)"
    using all_less_Cons [of ins rest "\<lambda>m x. isAddr (call_addr f) x = (n + m = i)"] by simp_all
  from Cons.prems(3) have sa: "isAddr (call_addr s) ins = (n = j)"
    and sr: "\<forall>m < length rest. isAddr (call_addr s) (rest ! m) = (Suc n + m = j)"
    using all_less_Cons [of ins rest "\<lambda>m x. isAddr (call_addr s) x = (n + m = j)"] by simp_all
  from Cons.prems(4,5) have bi: "i < Suc n + length rest" and bj: "j < Suc n + length rest" by simp_all
  note IH = Cons.IH [OF kd fr sr bi bj]
  have split: "(\<forall>m < length (ins # rest). isUnlockIns k ((ins # rest) ! m) \<longrightarrow> \<not> (i < n + m \<and> n + m \<le> j))
      \<longleftrightarrow> (isUnlockIns k ins \<longrightarrow> \<not> (i < n \<and> n \<le> j)) \<and>
          (\<forall>m < length rest. isUnlockIns k (rest ! m) \<longrightarrow> \<not> (i < Suc n + m \<and> Suc n + m \<le> j))"
    using all_less_Cons [of ins rest "\<lambda>m x. isUnlockIns k x \<longrightarrow> \<not> (i < n + m \<and> n + m \<le> j)"] by simp
  have int_suc: "int n + 1 = int (Suc n)" by simp
  show ?case
  proof (cases "\<exists>c. ins = Call c")
    case True
    then obtain c where Call: "ins = Call c" by blast
    from Cons.prems(1) Call obtain k' where k': "getLockPrefix c = Inr k'"
      by (auto simp: keysDerivable_iff)
    have un: "isUnlockOfSameKey c f = Inr (isUnlockIns k ins)"
      using isUnlockOfSameKey_total [OF key k'] Call by simp
    have fa': "(call_addr c = call_addr f) = (n = i)" using fa Call by (simp add: isAddr_def)
    have sa': "(call_addr c = call_addr s) = (n = j)" using sa Call by (simp add: isAddr_def)
    have st_f: "(if n = i then int n else if i < n then int i else - 1) = (if i < Suc n then int i else - 1)"
      by auto
    have st_s: "(if n = j then int n else if j < n then int j else - 1) = (if j < Suc n then int j else - 1)"
      by auto
    show ?thesis
      unfolding split
      apply (simp only: Call lockToLockLoop.simps Instruction.case Let_def un fa' sa' bind_def sum.case st_f st_s int_suc)
      apply (simp only: IH)
      apply (cases "isUnlockIns k ins")
       apply (auto simp: Call)
      done
  next
    case False
    then have nc: "\<And>c. ins \<noteq> Call c" by blast
    from not_Call_tests [OF nc] fa sa
    have ni: "n \<noteq> i" "n \<noteq> j" "\<not> isUnlockIns k ins" by auto
    then have st: "(if i < n then int i else - 1) = (if i < Suc n then int i else - 1)"
      "(if j < n then int j else - 1) = (if j < Suc n then int j else - 1)" by auto
    show ?thesis
      unfolding split lockToLockLoop_skip [OF nc] int_suc st
      using IH ni by simp
  qed
qed

text \<open>
  Claim C2, as the code has it.  Let \<open>f\<close> be the call at index \<open>i\<close> and \<open>s\<close> the call at
  index \<open>j\<close> of the block of \<open>f\<close>, each at that index only, let \<open>k\<close> be the lock key of
  \<open>f\<close>, and let no key derivation in the block panic.  Then
  \<open>isLockToLockInSameBlock(f, s)\<close> returns true exactly when \<open>i < j\<close> and no unlock call
  of \<open>k\<close> stands at an index \<open>n\<close> with \<open>i < n \<le> j\<close>: the unlock test is made on \<open>s\<close>
  itself before \<open>s\<close> is recorded.  In particular the answer is false for \<open>f = s\<close>.
\<close>

theorem isLockToLockInSameBlock_iff:
  assumes key: "getLockPrefix f = Inr k"
    and kd: "keysDerivable (blockInstrs prog (call_Block f))"
    and fi: "i < length (blockInstrs prog (call_Block f))" "blockInstrs prog (call_Block f) ! i = Call f"
    and sj: "j < length (blockInstrs prog (call_Block f))" "blockInstrs prog (call_Block f) ! j = Call s"
    and fu: "\<forall>m < length (blockInstrs prog (call_Block f)).
               isAddr (call_addr f) (blockInstrs prog (call_Block f) ! m) \<longrightarrow> m = i"
    and su: "\<forall>m < length (blockInstrs prog (call_Block f)).
               isAddr (call_addr s) (blockInstrs prog (call_Block f) ! m) \<longrightarrow> m = j"
  shows "isLockToLockInSameBlock prog f s =
           Inr (i < j \<and> (\<forall>n. i < n \<and> n \<le> j \<longrightarrow> \<not> unlockAt (blockInstrs prog (call_Block f)) k n))"
proof -
  let ?xs = "blockInstrs prog (call_Block f)"
  have a: "\<forall>m < length ?xs. isAddr (call_addr f) (?xs ! m) = (0 + m = i)"
  proof (intro allI impI)
    fix m assume m: "m < length ?xs"
    show "isAddr (call_addr f) (?xs ! m) = (0 + m = i)"
    proof (cases "m = i")
      case True
      then show ?thesis using fi(2) by (simp add: isAddr_def)
    next
      case False
      then show ?thesis using fu m by auto
    qed
  qed
  have b: "\<forall>m < length ?xs. isAddr (call_addr s) (?xs ! m) = (0 + m = j)"
  proof (intro allI impI)
    fix m assume m: "m < length ?xs"
    show "isAddr (call_addr s) (?xs ! m) = (0 + m = j)"
    proof (cases "m = j")
      case True
      then show ?thesis using sj(2) by (simp add: isAddr_def)
    next
      case False
      then show ?thesis using su m by auto
    qed
  qed
  have c: "i < 0 + length ?xs" "j < 0 + length ?xs" using fi(1) sj(1) by simp_all
  have "lockToLockLoop f s ?xs (int 0) (if i < 0 then int i else - 1, if j < 0 then int j else - 1)
       = Inr (i < j \<and> (\<forall>m < length ?xs. isUnlockIns k (?xs ! m) \<longrightarrow> \<not> (i < 0 + m \<and> 0 + m \<le> j)))"
    by (rule lockToLockLoop_result [OF key kd a b c])
  then have loop: "lockToLockLoop f s ?xs 0 (- 1, - 1)
       = Inr (i < j \<and> (\<forall>m < length ?xs. isUnlockIns k (?xs ! m) \<longrightarrow> \<not> (i < m \<and> m \<le> j)))"
    by simp
  have "(\<forall>m < length ?xs. isUnlockIns k (?xs ! m) \<longrightarrow> \<not> (i < m \<and> m \<le> j))
      \<longleftrightarrow> (\<forall>n. i < n \<and> n \<le> j \<longrightarrow> \<not> unlockAt ?xs k n)"
    unfolding unlockAt_alt by blast
  with loop show ?thesis by (simp only: isLockToLockInSameBlock_def)
qed

text \<open>
  In the block \<open>t0.Lock(); t0.Unlock(); t0.Lock(); t0.Lock()\<close> the third and the fourth
  instruction are a lock followed by a lock; the first and the third are not, for the
  unlock between them.
\<close>

theorem isLockToLockInSameBlock_witness:
  "isLockToLockInSameBlock (oneBlockProgram ''main.f'' lockUnlockLockLock [])
     (mutexLock 3 (''main.f'', 0) ''t0'') (mutexLock 4 (''main.f'', 0) ''t0'') = Inr True \<and>
   isLockToLockInSameBlock (oneBlockProgram ''main.f'' lockUnlockLockLock [])
     (mutexLock 1 (''main.f'', 0) ''t0'') (mutexLock 3 (''main.f'', 0) ''t0'') = Inr False"
proof -
  let ?p = "oneBlockProgram ''main.f'' lockUnlockLockLock []"
  have xs: "blockInstrs ?p (call_Block (mutexLock a (''main.f'', 0) ''t0'')) = lockUnlockLockLock" for a
    by (simp add: example_simps)
  have key: "getLockPrefix (mutexLock a (''main.f'', 0) ''t0'') = Inr ''t0''" for a
    by (simp add: example_simps)
  have u1: "unlockAt lockUnlockLockLock ''t0'' 1"
    by (simp add: unlockAt_def lull_nth example_simps)
  have u3: "\<not> unlockAt lockUnlockLockLock ''t0'' 3"
    by (simp add: unlockAt_def lull_nth example_simps)
  have one: "isLockToLockInSameBlock ?p (mutexLock 3 (''main.f'', 0) ''t0'') (mutexLock 4 (''main.f'', 0) ''t0'')
      = Inr ((2::nat) < 3 \<and> (\<forall>n. 2 < n \<and> n \<le> 3 \<longrightarrow> \<not> unlockAt (blockInstrs ?p (call_Block (mutexLock 3 (''main.f'', 0) ''t0''))) ''t0'' n))"
    by (rule isLockToLockInSameBlock_iff [OF key])
       (simp_all add: xs lull_kd lull_nth lull_addr example_simps)
  have two: "isLockToLockInSameBlock ?p (mutexLock 1 (''main.f'', 0) ''t0'') (mutexLock 3 (''main.f'', 0) ''t0'')
      = Inr ((0::nat) < 2 \<and> (\<forall>n. 0 < n \<and> n \<le> 2 \<longrightarrow> \<not> unlockAt (blockInstrs ?p (call_Block (mutexLock 1 (''main.f'', 0) ''t0''))) ''t0'' n))"
    by (rule isLockToLockInSameBlock_iff [OF key])
       (simp_all add: xs lull_kd lull_nth lull_addr example_simps)
  have r1: "(\<forall>n. 2 < n \<and> n \<le> 3 \<longrightarrow> \<not> unlockAt lockUnlockLockLock ''t0'' n)"
  proof (intro allI impI)
    fix n :: nat assume "2 < n \<and> n \<le> 3"
    then have "n = 3" by simp
    with u3 show "\<not> unlockAt lockUnlockLockLock ''t0'' n" by simp
  qed
  have r2: "\<not> (\<forall>n. 0 < n \<and> n \<le> 2 \<longrightarrow> \<not> unlockAt lockUnlockLockLock ''t0'' n)"
  proof
    assume "\<forall>n. 0 < n \<and> n \<le> 2 \<longrightarrow> \<not> unlockAt lockUnlockLockLock ''t0'' n"
    then have "\<not> unlockAt lockUnlockLockLock ''t0'' 1" by simp
    with u1 show False by simp
  qed
  show ?thesis
    using one two r1 r2 by (simp only: xs) simp
qed

text \<open>
  Claim C2 as worded fails when the second lock call is itself classified as an unlock
  call of the key.  A lock of the package-level mutex \<open>unlockMu\<close> is rendered
  \<open>(*sync.Mutex).Lock(main.unlockMu)\<close>, which contains \<open>.unlock\<close> once lowercased.  For
  two such locks at indices 0 and 1 no instruction stands strictly between them, and the
  code answers false.
\<close>

theorem isLockToLockInSameBlock_counterexample:
  "isCallToLock (Common (mutexLock 1 (''main.f'', 0) ''main.unlockMu'')) \<and>
   isCallToLock (Common (mutexLock 2 (''main.f'', 0) ''main.unlockMu'')) \<and>
   getLockPrefix (mutexLock 1 (''main.f'', 0) ''main.unlockMu'') = Inr ''main.unlockMu'' \<and>
   getLockPrefix (mutexLock 2 (''main.f'', 0) ''main.unlockMu'') = Inr ''main.unlockMu'' \<and>
   blockInstrs (oneBlockProgram ''main.f'' lockLockUnlockMu [])
       (call_Block (mutexLock 1 (''main.f'', 0) ''main.unlockMu'')) = lockLockUnlockMu \<and>
   lockLockUnlockMu ! 0 = Call (mutexLock 1 (''main.f'', 0) ''main.unlockMu'') \<and>
   lockLockUnlockMu ! 1 = Call (mutexLock 2 (''main.f'', 0) ''main.unlockMu'') \<and>
   (0::nat) < 1 \<and> \<not> (\<exists>n::nat. 0 < n \<and> n < 1 \<and> unlockAt lockLockUnlockMu ''main.unlockMu'' n) \<and>
   isLockToLockInSameBlock (oneBlockProgram ''main.f'' lockLockUnlockMu [])
     (mutexLock 1 (''main.f'', 0) ''main.unlockMu'') (mutexLock 2 (''main.f'', 0) ''main.unlockMu'') = Inr False"
  by (simp add: isLockToLockInSameBlock_def lockLockUnlockMu_def example_simps)

section \<open>Unlock before lock\<close>

lemma lastIdx_snoc: "lastIdx P (xs @ [x]) base d = (if P x then base + int (length xs) else lastIdx P xs base d)"
  by (induction xs arbitrary: base d) (auto simp: algebra_simps)

lemma lastIdx_char:
  "(\<forall>n < length xs. \<not> P (xs ! n)) \<and> lastIdx P xs 0 (- 1) = - 1 \<or>
   (\<exists>l < length xs. lastIdx P xs 0 (- 1) = int l \<and> P (xs ! l) \<and> (\<forall>n < length xs. P (xs ! n) \<longrightarrow> n \<le> l))"
proof (induction xs rule: rev_induct)
  case Nil
  then show ?case by simp
next
  case (snoc x xs)
  show ?case
  proof (cases "P x")
    case True
    have "\<forall>n < length (xs @ [x]). P ((xs @ [x]) ! n) \<longrightarrow> n \<le> length xs" by simp
    moreover have "lastIdx P (xs @ [x]) 0 (- 1) = int (length xs)" using True by (simp add: lastIdx_snoc)
    moreover have "P ((xs @ [x]) ! length xs)" using True by simp
    moreover have "length xs < length (xs @ [x])" by simp
    ultimately show ?thesis by blast
  next
    case False
    have eq: "lastIdx P (xs @ [x]) 0 (- 1) = lastIdx P xs 0 (- 1)" using False by (simp add: lastIdx_snoc)
    from snoc show ?thesis
    proof
      assume "(\<forall>n<length xs. \<not> P (xs ! n)) \<and> lastIdx P xs 0 (- 1) = - 1"
      then show ?thesis using False eq by (auto simp: nth_append less_Suc_eq)
    next
      assume "\<exists>l<length xs. lastIdx P xs 0 (- 1) = int l \<and> P (xs ! l) \<and> (\<forall>n<length xs. P (xs ! n) \<longrightarrow> n \<le> l)"
      then obtain l where l: "l < length xs" "lastIdx P xs 0 (- 1) = int l" "P (xs ! l)" "\<forall>n<length xs. P (xs ! n) \<longrightarrow> n \<le> l"
        by blast
      have "l < length (xs @ [x])" using l by simp
      moreover have "lastIdx P (xs @ [x]) 0 (- 1) = int l" using l eq by simp
      moreover have "P ((xs @ [x]) ! l)" using l by (simp add: nth_append)
      moreover have "\<forall>n<length (xs @ [x]). P ((xs @ [x]) ! n) \<longrightarrow> n \<le> l"
        using l False by (auto simp: nth_append less_Suc_eq)
      ultimately show ?thesis by blast
    qed
  qed
qed

lemma last_lt_iff:
  fixes xs :: "'a list"
  shows "lastIdx U xs 0 (- 1) < lastIdx L xs 0 (- 1) \<longleftrightarrow>
     (\<exists>l < length xs. L (xs ! l) \<and> (\<forall>u < length xs. U (xs ! u) \<longrightarrow> u < l))"
proof -
  consider (noL) "(\<forall>n < length xs. \<not> L (xs ! n))" "lastIdx L xs 0 (- 1) = - 1"
    | (someL) l where "l < length xs" "lastIdx L xs 0 (- 1) = int l" "L (xs ! l)" "\<forall>n < length xs. L (xs ! n) \<longrightarrow> n \<le> l"
    using lastIdx_char [of xs L] by blast
  then show ?thesis
  proof cases
    case noL
    have "- 1 \<le> lastIdx U xs 0 (- 1)" using lastIdx_char [of xs U] by auto
    with noL show ?thesis by auto
  next
    case someL
    consider (noU) "(\<forall>n < length xs. \<not> U (xs ! n))" "lastIdx U xs 0 (- 1) = - 1"
      | (someU) u where "u < length xs" "lastIdx U xs 0 (- 1) = int u" "U (xs ! u)" "\<forall>n < length xs. U (xs ! n) \<longrightarrow> n \<le> u"
      using lastIdx_char [of xs U] by blast
    then show ?thesis
    proof cases
      case noU
      with someL show ?thesis by auto
    next
      case someU
      show ?thesis
      proof
        assume "lastIdx U xs 0 (- 1) < lastIdx L xs 0 (- 1)"
        then have "u < l" using someL someU by simp
        then have "\<forall>m < length xs. U (xs ! m) \<longrightarrow> m < l" using someU(4) by auto
        with someL show "\<exists>l<length xs. L (xs ! l) \<and> (\<forall>u<length xs. U (xs ! u) \<longrightarrow> u < l)" by blast
      next
        assume "\<exists>l<length xs. L (xs ! l) \<and> (\<forall>u<length xs. U (xs ! u) \<longrightarrow> u < l)"
        then obtain l' where l': "l' < length xs" "L (xs ! l')" "\<forall>u<length xs. U (xs ! u) \<longrightarrow> u < l'" by blast
        then have "u < l'" using someU by blast
        moreover have "l' \<le> l" using someL l' by blast
        ultimately show "lastIdx U xs 0 (- 1) < lastIdx L xs 0 (- 1)" using someL someU by simp
      qed
    qed
  qed
qed

lemma unlockBeforeLockLoop_skip:
  "(\<And>c. ins \<noteq> Call c) \<Longrightarrow>
   unlockBeforeLockLoop k (ins # rest) n (a, b) = unlockBeforeLockLoop k rest (n + 1) (a, b)"
  by (cases ins) auto

lemma unlockBeforeLockLoop_Inr:
  "unlockBeforeLockLoop k rest n (li, ui) = Inr r \<Longrightarrow>
   r = (lastIdx (isUnlockIns k) rest n ui < lastIdx (isLockIns k) rest n li)"
proof (induction rest arbitrary: n li ui)
  case Nil
  then show ?case by auto
next
  case (Cons ins rest)
  show ?case
  proof (cases "\<exists>c. ins = Call c")
    case True
    then obtain c where Call: "ins = Call c" by blast
    with Cons.prems obtain u l where u: "isUnlockOfKey c k = Inr u" and l: "isLockOfKey c k = Inr l"
      and rec: "unlockBeforeLockLoop k rest (n + 1) (if l then n else li, if u then n else ui) = Inr r"
      by (auto simp: bind_Inr_iff)
    from u have u': "u = isUnlockIns k ins" using Call by (auto dest: isUnlockOfKey_Inr)
    from l have l': "l = isLockIns k ins" using Call by (auto dest: isLockOfKey_Inr)
    from Cons.IH [OF rec] u' l' show ?thesis by simp
  next
    case False
    then have nc: "\<And>c. ins \<noteq> Call c" by blast
    from Cons.prems have "unlockBeforeLockLoop k rest (n + 1) (li, ui) = Inr r"
      by (simp only: unlockBeforeLockLoop_skip [OF nc])
    from Cons.IH [OF this] not_Call_tests [OF nc, of _ k] show ?thesis by simp
  qed
qed

lemma unlockBeforeLockLoop_total:
  "keysDerivable rest \<Longrightarrow> \<exists>r. unlockBeforeLockLoop k rest n (li, ui) = Inr r"
proof (induction rest arbitrary: n li ui)
  case Nil
  then show ?case by simp
next
  case (Cons ins rest)
  from Cons.prems have kd: "keysDerivable rest" by (rule keysDerivable_Cons)
  show ?case
  proof (cases "\<exists>c. ins = Call c")
    case True
    then obtain c where Call: "ins = Call c" by blast
    with Cons.prems obtain k' where "getLockPrefix c = Inr k'"
      by (auto simp: keysDerivable_iff)
    then show ?thesis using Call Cons.IH [OF kd]
      by (simp add: isUnlockOfKey_total isLockOfKey_total bind_def)
  next
    case False
    then have nc: "\<And>c. ins \<noteq> Call c" by blast
    show ?thesis unfolding unlockBeforeLockLoop_skip [OF nc] using Cons.IH [OF kd] by simp
  qed
qed

lemma isUnlockBeforeLock_Inr:
  assumes "isUnlockBeforeLock prog sNode k = Inr r"
  shows "r = (\<exists>l. lockAt (blockInstrs prog (BB sNode)) k l \<and>
               (\<forall>u. unlockAt (blockInstrs prog (BB sNode)) k u \<longrightarrow> u < l))"
proof -
  let ?xs = "blockInstrs prog (BB sNode)"
  from assms have "r = (lastIdx (isUnlockIns k) ?xs 0 (- 1) < lastIdx (isLockIns k) ?xs 0 (- 1))"
    unfolding isUnlockBeforeLock_def by (rule unlockBeforeLockLoop_Inr)
  then show ?thesis
    unfolding last_lt_iff by (auto simp: lockAt_alt unlockAt_alt)
qed

lemma isUnlockBeforeLock_total:
  "keysDerivable (blockInstrs prog (BB sNode)) \<Longrightarrow> \<exists>r. isUnlockBeforeLock prog sNode k = Inr r"
  unfolding isUnlockBeforeLock_def by (rule unlockBeforeLockLoop_total)

lemma isUnlockBeforeLock_no_lock:
  assumes "keysDerivable (blockInstrs prog (BB sNode))"
    and "\<And>l. \<not> lockAt (blockInstrs prog (BB sNode)) k l"
  shows "isUnlockBeforeLock prog sNode k = Inr False"
proof -
  from assms(1) obtain r where r: "isUnlockBeforeLock prog sNode k = Inr r"
    using isUnlockBeforeLock_total by blast
  from isUnlockBeforeLock_Inr [OF r] assms(2) have "r = False" by blast
  with r show ?thesis by simp
qed

lemma isUnlockBeforeLock_lock_no_unlock:
  assumes "keysDerivable (blockInstrs prog (BB sNode))"
    and "lockAt (blockInstrs prog (BB sNode)) k l"
    and "\<And>u. \<not> unlockAt (blockInstrs prog (BB sNode)) k u"
  shows "isUnlockBeforeLock prog sNode k = Inr True"
proof -
  from assms(1) obtain r where r: "isUnlockBeforeLock prog sNode k = Inr r"
    using isUnlockBeforeLock_total by blast
  from isUnlockBeforeLock_Inr [OF r] assms(2,3) have "r = True" by blast
  with r show ?thesis by simp
qed

lemma no_lockAt_iff: "(\<forall>l. \<not> lockAt xs k l) \<longleftrightarrow> (\<forall>ins \<in> set xs. \<not> isLockIns k ins)"
  by (metis lockAt_alt in_set_conv_nth)

lemma no_unlockAt_iff: "(\<forall>l. \<not> unlockAt xs k l) \<longleftrightarrow> (\<forall>ins \<in> set xs. \<not> isUnlockIns k ins)"
  by (metis unlockAt_alt in_set_conv_nth)

lemma callG_fields:
  "call_Block callG = (''main.f'', 0)" "call_addr callG = 5"
  "\<not> isCallToLock (Common callG)" "\<not> isCallToUnlock (Common callG)"
  "getLockPrefix callG = Inr ''main.g()''"
  by (simp_all add: callG_def mkCall_def staticFn_def isCallToLock_def isCallToUnlock_def
        IsCallTo_def CallName_def IsInvoke_def getLockPrefix_def ToLower_def lowerByte_def
        Contains_def)

lemma callerCallee_instrs:
  "blockInstrs callerCallee (''main.f'', 0) = lockThenCall"
  "blockInstrs callerCallee (''main.g'', 0) = lockOnly"
  by (simp_all add: callerCallee_def blockInstrs_def)

lemma lockOnly_guard:
  "isUnlockBeforeLock callerCallee (CreateBBNode (''main.g'', 0)) ''t0'' = Inr True"
  by (simp add: isUnlockBeforeLock_def CreateBBNode_def callerCallee_instrs lockOnly_def
        example_simps)

lemma lockThenCall_guard:
  "isUnlockBeforeLock callerCallee (CreateBBNode (''main.f'', 0)) ''t0'' = Inr True"
  by (simp add: isUnlockBeforeLock_def CreateBBNode_def callerCallee_instrs lockThenCall_def
        example_simps callG_fields)

lemma lockThenCall_leg:
  "isLockToLockInSameBlock callerCallee (mutexLock 4 (''main.f'', 0) ''t0'') callG = Inr True"
  by (simp add: isLockToLockInSameBlock_def callerCallee_instrs lockThenCall_def
        example_simps callG_fields)

lemma callerCallee_self:
  "isLockToLockInSameBlock callerCallee
     (mutexLock 4 (''main.f'', 0) ''t0'') (mutexLock 4 (''main.f'', 0) ''t0'') = Inr False"
  "isLockToLockInSameBlock callerCallee
     (mutexLock 6 (''main.g'', 0) ''t0'') (mutexLock 6 (''main.g'', 0) ''t0'') = Inr False"
  by (simp_all add: isLockToLockInSameBlock_def callerCallee_instrs lockThenCall_def lockOnly_def
        example_simps callG_fields)

lemma callerCallee_findPath:
  "findPath c callerCallee (CreateBBNode (''main.f'', 0)) (CreateBBNode (''main.f'', 0)) ''t0'' = Inr False"
  "findPath c callerCallee (CreateBBNode (''main.g'', 0)) (CreateBBNode (''main.g'', 0)) ''t0'' = Inr False"
proof -
  have "noUnlockLoop ''t0'' lockThenCall True = Inr True" "noUnlockLoop ''t0'' lockOnly True = Inr True"
    by (simp_all add: lockThenCall_def lockOnly_def example_simps callG_fields)
  then show
    "findPath c callerCallee (CreateBBNode (''main.f'', 0)) (CreateBBNode (''main.f'', 0)) ''t0'' = Inr False"
    "findPath c callerCallee (CreateBBNode (''main.g'', 0)) (CreateBBNode (''main.g'', 0)) ''t0'' = Inr False"
    using lockOnly_guard lockThenCall_guard
    by (simp_all add: findPath_def bind_def callerCallee_instrs CreateBBNode_def)
qed

lemma callerCallee_double:
  assumes "PathSearchIgnoreGoCall c = callGraphFG"
  shows "isDoubleLock c callerCallee
           (mutexLock 4 (''main.f'', 0) ''t0'') (mutexLock 6 (''main.g'', 0) ''t0'') ''t0'' = Inr False"
    and "isDoubleLock c callerCallee
           (mutexLock 6 (''main.g'', 0) ''t0'') (mutexLock 4 (''main.f'', 0) ''t0'') ''t0'' = Inr False"
    and "isDoubleLock c callerCallee
           (mutexLock 4 (''main.f'', 0) ''t0'') (mutexLock 4 (''main.f'', 0) ''t0'') ''t0'' = Inr False"
    and "isDoubleLock c callerCallee
           (mutexLock 6 (''main.g'', 0) ''t0'') (mutexLock 6 (''main.g'', 0) ''t0'') ''t0'' = Inr False"
  using assms lockOnly_guard callerCallee_self callerCallee_findPath [of c]
  by (simp_all add: isDoubleLock_def crossFunction_def callGraphFG_def Let_def bind_def
        mutexLock_fields)

lemma callerCallee_collect:
  "collectAll callerCallee (InitialFunctions callerCallee) Map.empty
     = Inr [''t0'' \<mapsto> [mutexLock 4 (''main.f'', 0) ''t0'', mutexLock 6 (''main.g'', 0) ''t0'']]"
proof -
  have f: "collectLockInstrs callerCallee
        \<lparr>fn_id = ''main.f'', Object = Some \<lparr>Name = ''f'', FullName = ''main.f''\<rparr>, Recv = None\<rparr>
      = Inr [''t0'' \<mapsto> [mutexLock 4 (''main.f'', 0) ''t0'']]"
    by (simp add: collectLockInstrs_def callerCallee_def lockThenCall_def example_simps
          callG_fields lockList_def)
  have g: "collectLockInstrs callerCallee
        \<lparr>fn_id = ''main.g'', Object = Some \<lparr>Name = ''g'', FullName = ''main.g''\<rparr>, Recv = None\<rparr>
      = Inr [''t0'' \<mapsto> [mutexLock 6 (''main.g'', 0) ''t0'']]"
    by (simp add: collectLockInstrs_def callerCallee_def lockOnly_def example_simps lockList_def)
  have m: "mergeLocks (mergeLocks Map.empty [''t0'' \<mapsto> [mutexLock 4 (''main.f'', 0) ''t0'']])
        [''t0'' \<mapsto> [mutexLock 6 (''main.g'', 0) ''t0'']]
      = [''t0'' \<mapsto> [mutexLock 4 (''main.f'', 0) ''t0'', mutexLock 6 (''main.g'', 0) ''t0'']]"
    by (auto simp: mergeLocks_def lockList_def fun_eq_iff)
  have i: "InitialFunctions callerCallee =
      [\<lparr>fn_id = ''main.f'', Object = Some \<lparr>Name = ''f'', FullName = ''main.f''\<rparr>, Recv = None\<rparr>,
       \<lparr>fn_id = ''main.g'', Object = Some \<lparr>Name = ''g'', FullName = ''main.g''\<rparr>, Recv = None\<rparr>]"
    by (simp add: callerCallee_def)
  show ?thesis
    by (simp only: i collectAll.simps f g m bind_def sum.case)
qed

lemma callerCallee_reports:
  assumes "PathSearchIgnoreGoCall c = callGraphFG"
  shows "CheckDoubleLock c callerCallee [''t0''] = Inr []"
proof -
  have l: "lockList [''t0'' \<mapsto> [mutexLock 4 (''main.f'', 0) ''t0'', mutexLock 6 (''main.g'', 0) ''t0'']] ''t0''
      = [mutexLock 4 (''main.f'', 0) ''t0'', mutexLock 6 (''main.g'', 0) ''t0'']"
    by (simp add: lockList_def)
  have k: "keyReports c callerCallee ''t0''
      [mutexLock 4 (''main.f'', 0) ''t0'', mutexLock 6 (''main.g'', 0) ''t0''] = Inr []"
    by (simp add: pairReports_def callerCallee_double [OF assms] bind_def mutexLock_fields)
  show ?thesis
    by (simp only: CheckDoubleLock_def callerCallee_collect bind_def sum.case checkKeys.simps
          l k append.simps)
qed

text \<open>
  Claim C10 at the program of two functions where \<open>f\<close> locks \<open>t0\<close> and then calls \<open>g\<close>, and
  \<open>g\<close> locks \<open>t0\<close>, with no unlock anywhere.  The block of the second lock has a lock call
  of the key and no unlock call of the key, so it does not lock the key again after an
  unlock; yet \<open>isUnlockBeforeLock\<close> returns true on it.  The call graph search finds the
  edge from \<open>f\<close> to \<open>g\<close>, and between the first lock and the call of \<open>g\<close> in the block of
  \<open>f\<close> the same-block test holds; but the guard of the cross-function part answers false
  before that test is made, so \<open>_isDoubleLock\<close> returns false for the pair, and
  \<open>CheckDoubleLock\<close> reports nothing, whatever the loops and the lock-path search are.
\<close>

theorem isUnlockBeforeLock_without_unlock:
  "isCallToLock (Common (mutexLock 4 (''main.f'', 0) ''t0'')) \<and>
   isCallToLock (Common (mutexLock 6 (''main.g'', 0) ''t0'')) \<and>
   getLockPrefix (mutexLock 4 (''main.f'', 0) ''t0'') = Inr ''t0'' \<and>
   getLockPrefix (mutexLock 6 (''main.g'', 0) ''t0'') = Inr ''t0'' \<and>
   blockInstrs callerCallee (call_Block (mutexLock 4 (''main.f'', 0) ''t0'')) = lockThenCall \<and>
   blockInstrs callerCallee (call_Block (mutexLock 6 (''main.g'', 0) ''t0'')) = lockOnly \<and>
   lockAt lockOnly ''t0'' 0 \<and>
   (\<forall>u. \<not> unlockAt lockOnly ''t0'' u) \<and>
   isUnlockBeforeLock callerCallee (CreateBBNode (call_Block (mutexLock 6 (''main.g'', 0) ''t0''))) ''t0''
     = Inr True \<and>
   callGraphFG ''main.f'' (\<lambda>other. other = ''main.g'') = [\<lparr>Site = Call callG, Callee = ''main.g''\<rparr>] \<and>
   isLockToLockInSameBlock callerCallee (mutexLock 4 (''main.f'', 0) ''t0'') callG = Inr True \<and>
   (\<forall>loops lps.
      crossFunction \<lparr>Loops = loops, LockPathSearch = lps, PathSearchIgnoreGoCall = callGraphFG\<rparr>
        callerCallee (mutexLock 4 (''main.f'', 0) ''t0'') (mutexLock 6 (''main.g'', 0) ''t0'') ''t0''
        = Inr False \<and>
      isDoubleLock \<lparr>Loops = loops, LockPathSearch = lps, PathSearchIgnoreGoCall = callGraphFG\<rparr>
        callerCallee (mutexLock 4 (''main.f'', 0) ''t0'') (mutexLock 6 (''main.g'', 0) ''t0'') ''t0''
        = Inr False \<and>
      CheckDoubleLock \<lparr>Loops = loops, LockPathSearch = lps, PathSearchIgnoreGoCall = callGraphFG\<rparr>
        callerCallee [''t0''] = Inr [])"
proof -
  have nu: "\<forall>u. \<not> unlockAt lockOnly ''t0'' u"
    unfolding no_unlockAt_iff by (simp add: lockOnly_def isUnlockIns_def example_simps)
  have la: "lockAt lockOnly ''t0'' 0"
    by (simp add: lockAt_alt lockOnly_def isLockIns_def example_simps)
  have cg: "callGraphFG ''main.f'' (\<lambda>other. other = ''main.g'') = [\<lparr>Site = Call callG, Callee = ''main.g''\<rparr>]"
    by (simp add: callGraphFG_def)
  have cf: "crossFunction \<lparr>Loops = loops, LockPathSearch = lps, PathSearchIgnoreGoCall = callGraphFG\<rparr>
        callerCallee (mutexLock 4 (''main.f'', 0) ''t0'') (mutexLock 6 (''main.g'', 0) ''t0'') ''t0''
        = Inr False" for loops lps
    using lockOnly_guard by (simp add: crossFunction_def cg Let_def bind_def mutexLock_fields)
  have dl: "isDoubleLock \<lparr>Loops = loops, LockPathSearch = lps, PathSearchIgnoreGoCall = callGraphFG\<rparr>
        callerCallee (mutexLock 4 (''main.f'', 0) ''t0'') (mutexLock 6 (''main.g'', 0) ''t0'') ''t0''
        = Inr False" for loops lps
    by (rule callerCallee_double) simp
  have cd: "CheckDoubleLock \<lparr>Loops = loops, LockPathSearch = lps, PathSearchIgnoreGoCall = callGraphFG\<rparr>
        callerCallee [''t0''] = Inr []" for loops lps
    by (rule callerCallee_reports) simp
  show ?thesis
    using nu la cg cf dl cd lockOnly_guard lockThenCall_leg
    by (simp add: mutexLock_fields callerCallee_instrs)
qed

section \<open>The double-lock decision for a lock paired with itself\<close>

lemma lockToLockLoop_same:
  "lockToLockLoop f f rest n (a, a) = Inr r \<Longrightarrow> r = False"
proof (induction rest arbitrary: n a)
  case Nil
  then show ?case by simp
next
  case (Cons ins rest)
  show ?case
  proof (cases "\<exists>c. ins = Call c")
    case True
    then obtain c where Call: "ins = Call c" by blast
    from Cons.prems Call obtain u where
      u: "(if u \<and> (((if call_addr c = call_addr f then n else a) < n \<and> a = - 1 \<and> (if call_addr c = call_addr f then n else a) \<noteq> - 1) \<or>
                    (a < n \<and> (if call_addr c = call_addr f then n else a) = - 1 \<and> a \<noteq> - 1))
           then Inr False
           else lockToLockLoop f f rest (n + 1)
                  (if call_addr c = call_addr f then n else a, if call_addr c = call_addr f then n else a)) = Inr r"
      by (auto simp: bind_Inr_iff Let_def)
    then show ?thesis
      using Cons.IH by (auto split: if_splits)
  next
    case False
    then have nc: "\<And>c. ins \<noteq> Call c" by blast
    from Cons.prems have "lockToLockLoop f f rest (n + 1) (a, a) = Inr r"
      by (simp only: lockToLockLoop_skip [OF nc])
    then show ?thesis by (rule Cons.IH)
  qed
qed

lemma noUnlockLoop_skip:
  "(\<And>c. ins \<noteq> Call c) \<Longrightarrow> noUnlockLoop k (ins # rest) b = noUnlockLoop k rest b"
  by (cases ins) auto

lemma noUnlockLoop_Inr:
  "noUnlockLoop k rest b = Inr r \<Longrightarrow> r = (b \<and> (\<forall>ins \<in> set rest. \<not> isUnlockIns k ins))"
proof (induction rest arbitrary: b)
  case Nil
  then show ?case by simp
next
  case (Cons ins rest)
  show ?case
  proof (cases "\<exists>c. ins = Call c")
    case True
    then obtain c where Call: "ins = Call c" by blast
    with Cons.prems obtain u where u: "isUnlockOfKey c k = Inr u"
      and rec: "noUnlockLoop k rest (if u then False else b) = Inr r"
      by (auto simp: bind_Inr_iff)
    from u have "u = isUnlockIns k ins" using Call by (auto dest: isUnlockOfKey_Inr)
    with Cons.IH [OF rec] show ?thesis by auto
  next
    case False
    then have nc: "\<And>c. ins \<noteq> Call c" by blast
    from Cons.prems have "noUnlockLoop k rest b = Inr r"
      by (simp only: noUnlockLoop_skip [OF nc])
    from Cons.IH [OF this] not_Call_tests [OF nc, of _ k] show ?thesis by simp
  qed
qed

lemma findPath_same_block:
  assumes "findPath c prog fNode sNode k = Inr r" and "BB fNode = BB sNode"
    and "lockAt (blockInstrs prog (BB sNode)) k l"
  shows "r = False"
proof -
  let ?xs = "blockInstrs prog (BB sNode)"
  from assms(1,2) obtain ns ub where ns: "noUnlockLoop k ?xs True = Inr ns"
    and ub: "isUnlockBeforeLock prog sNode k = Inr ub"
    and rest: "ns \<and> \<not> ub \<or> r = False"
    by (auto simp: findPath_def bind_Inr_iff split: if_splits)
  have "ns \<longrightarrow> ub"
  proof
    assume ns
    with noUnlockLoop_Inr [OF ns] have "\<forall>ins \<in> set ?xs. \<not> isUnlockIns k ins" by simp
    then have "\<forall>u. \<not> unlockAt ?xs k u" by (auto simp: unlockAt_alt)
    with assms(3) isUnlockBeforeLock_Inr [OF ub] show ub by blast
  qed
  with rest show ?thesis by blast
qed

text \<open>
  For a lock call that stands in its own block, paired with itself, \<open>_isDoubleLock\<close>
  never returns true when the call graph search gives no path from the function to
  itself: the same-block test fails; \<open>findPath\<close> searches only when the block has no
  unlock of the key and \<open>isUnlockBeforeLock\<close> is false, and without an unlock
  \<open>isUnlockBeforeLock\<close> is true, its unlock index being \<open>-1\<close>.
\<close>

lemma isDoubleLock_self_false:
  assumes lock: "isCallToLock (Common L)" "getLockPrefix L = Inr k"
    and mem: "Call L \<in> set (blockInstrs prog (call_Block L))"
    and nopath: "PathSearchIgnoreGoCall c (fst (call_Block L)) (\<lambda>other. other = fst (call_Block L)) = []"
    and ret: "isDoubleLock c prog L L k = Inr r"
  shows "r = False"
proof -
  from mem obtain l where l: "l < length (blockInstrs prog (call_Block L))"
    "blockInstrs prog (call_Block L) ! l = Call L"
    by (auto simp: in_set_conv_nth)
  then have la: "lockAt (blockInstrs prog (BB (CreateBBNode (call_Block L)))) k l"
    using lock by (simp add: lockAt_def CreateBBNode_def)
  have cf: "crossFunction c prog L L k = Inr False"
    using nopath by (simp add: crossFunction_def Let_def)
  from ret obtain b where b: "(bind (isLockToLockInSameBlock prog L L) (\<lambda>same.
                   if \<not> same \<and> isInLoop c (call_Block L)
                   then findPath c prog (CreateBBNode (call_Block L)) (CreateBBNode (call_Block L)) k
                   else Inr same)) = Inr b"
    and fin: "(if \<not> b then crossFunction c prog L L k else Inr b) = Inr r"
    by (auto simp: isDoubleLock_def Let_def bind_Inr_iff)
  from b obtain same where same: "isLockToLockInSameBlock prog L L = Inr same"
    and b': "(if \<not> same \<and> isInLoop c (call_Block L)
                   then findPath c prog (CreateBBNode (call_Block L)) (CreateBBNode (call_Block L)) k
                   else Inr same) = Inr b"
    by (auto simp: bind_Inr_iff)
  from same have "same = False"
    unfolding isLockToLockInSameBlock_def by (rule lockToLockLoop_same)
  with b' have "b = False"
    using findPath_same_block [OF _ refl la] by (auto split: if_splits)
  with fin cf show ?thesis by simp
qed

text \<open>
  Claim C1 at the function \<open>for { t0.Lock() }\<close>: its only block is in a loop, is its own
  successor, has no unlock of the key and passes the pruning predicate of the lock-path
  search, so a lock path leads from the block back to itself; yet \<open>_isDoubleLock\<close>
  returns false for the lock paired with itself, whatever the two searches answer.
\<close>

theorem isDoubleLock_self_in_loop:
  "isCallToLock (Common (mutexLock 1 (''main.f'', 0) ''t0'')) \<and>
   getLockPrefix (mutexLock 1 (''main.f'', 0) ''t0'') = Inr ''t0'' \<and>
   blockInstrs (oneBlockProgram ''main.f'' lockInLoop [0]) (call_Block (mutexLock 1 (''main.f'', 0) ''t0'')) = lockInLoop \<and>
   Succs (FuncBlocks (oneBlockProgram ''main.f'' lockInLoop [0]) ''main.f'' ! 0) = [0] \<and>
   pruneLoop ''t0'' lockInLoop = Inr True \<and>
   (\<forall>n. \<not> unlockAt lockInLoop ''t0'' n) \<and>
   (\<forall>lps ps. isInLoop \<lparr>Loops = (\<lambda>f. [{(''main.f'', 0)}]), LockPathSearch = lps, PathSearchIgnoreGoCall = ps\<rparr>
                (call_Block (mutexLock 1 (''main.f'', 0) ''t0'')) \<and>
              isDoubleLock \<lparr>Loops = (\<lambda>f. [{(''main.f'', 0)}]), LockPathSearch = lps, PathSearchIgnoreGoCall = ps\<rparr>
                (oneBlockProgram ''main.f'' lockInLoop [0])
                (mutexLock 1 (''main.f'', 0) ''t0'') (mutexLock 1 (''main.f'', 0) ''t0'') ''t0'' = Inr False)"
proof -
  have xs: "blockInstrs (oneBlockProgram ''main.f'' lockInLoop [0]) (''main.f'', 0) = lockInLoop"
    by (simp add: example_simps)
  have "\<forall>n. \<not> unlockAt lockInLoop ''t0'' n"
    unfolding no_unlockAt_iff by (simp add: lockInLoop_def isUnlockIns_def example_simps)
  then have nu: "\<not> unlockAt lockInLoop ''t0'' n" for n by simp
  have same: "isLockToLockInSameBlock (oneBlockProgram ''main.f'' lockInLoop [0])
      (mutexLock 1 (''main.f'', 0) ''t0'') (mutexLock 1 (''main.f'', 0) ''t0'') = Inr False"
    by (simp add: isLockToLockInSameBlock_def lockInLoop_def example_simps)
  have ub: "isUnlockBeforeLock (oneBlockProgram ''main.f'' lockInLoop [0]) (CreateBBNode (''main.f'', 0)) ''t0'' = Inr True"
    by (simp add: isUnlockBeforeLock_def CreateBBNode_def lockInLoop_def example_simps)
  have nl: "noUnlockLoop ''t0'' lockInLoop True = Inr True"
    by (simp add: lockInLoop_def example_simps)
  have fp: "findPath c (oneBlockProgram ''main.f'' lockInLoop [0]) (CreateBBNode (''main.f'', 0)) (CreateBBNode (''main.f'', 0)) ''t0'' = Inr False" for c
    using ub nl by (simp add: findPath_def bind_def xs CreateBBNode_def)
  have cf: "crossFunction c (oneBlockProgram ''main.f'' lockInLoop [0])
      (mutexLock 1 (''main.f'', 0) ''t0'') (mutexLock 1 (''main.f'', 0) ''t0'') ''t0'' = Inr False" for c
    using ub by (simp add: crossFunction_def Let_def bind_def example_simps)
  have dl: "isDoubleLock c (oneBlockProgram ''main.f'' lockInLoop [0])
      (mutexLock 1 (''main.f'', 0) ''t0'') (mutexLock 1 (''main.f'', 0) ''t0'') ''t0'' = Inr False" for c
    using same fp cf by (simp add: isDoubleLock_def Let_def bind_def example_simps)
  have pr: "pruneLoop ''t0'' lockInLoop = Inr True"
    by (simp add: lockInLoop_def example_simps)
  have sc: "Succs (FuncBlocks (oneBlockProgram ''main.f'' lockInLoop [0]) ''main.f'' ! 0) = [0]"
    by (simp add: oneBlockProgram_def)
  show ?thesis
    using nu dl pr sc by (simp add: example_simps isInLoop_def)
qed

section \<open>Goroutines that fail a test: properties\<close>

lemma callReports_node: "d \<in> set (callReports gostmt ins) \<Longrightarrow> node d = Go gostmt"
  by (cases ins) (auto simp: callReports_def split: option.splits)

lemma callReports_nonempty: "callReports gostmt ins \<noteq> [] \<longleftrightarrow> isFatalCall ins"
  by (cases ins) (auto simp: callReports_def isFatalCall_def split: option.splits)

lemma goroutineReports_node:
  "d \<in> set (goroutineReports gostmt blocks) \<Longrightarrow> node d = Go gostmt"
  by (auto simp: goroutineReports_def dest: callReports_node)

lemma goroutineReports_nonempty:
  "goroutineReports gostmt (FuncBlocks prog f) \<noteq> [] \<longleftrightarrow> containsFatalCall prog f"
  by (auto simp: goroutineReports_def containsFatalCall_def list_ex_iff callReports_nonempty)

lemma goReports_set:
  "d \<in> set (goReports prog ins) \<longleftrightarrow>
     (\<exists>gostmt fn. ins = Go gostmt \<and> goTarget gostmt = Some fn \<and>
        d \<in> set (goroutineReports gostmt (FuncBlocks prog (fn_id fn))))"
  by (cases ins; cases "goTarget (case ins of Go g \<Rightarrow> g)") (auto simp: goReports_def)

lemma CheckConcurrentTesting_set:
  "d \<in> set (CheckConcurrentTesting prog) \<longleftrightarrow>
     (\<exists>ssafn \<in> set (InitialFunctions prog). \<exists>block \<in> set (FuncBlocks prog (fn_id ssafn)).
        \<exists>gostmt fn. Go gostmt \<in> set (Instrs block) \<and> goTarget gostmt = Some fn \<and>
          d \<in> set (goroutineReports gostmt (FuncBlocks prog (fn_id fn))))"
  unfolding CheckConcurrentTesting_def by (simp add: goReports_set) blast

text \<open>
  Claim C6, as the code has it.  \<open>CheckConcurrentTesting\<close> reports a \<open>go\<close> instruction
  exactly when the instruction stands in a block of an initial function and the blocks of
  its target function (the function started, directly or through a closure) themselves
  hold a static call, on a \<open>*testing.common\<close> receiver, of \<open>FailNow\<close>, \<open>Fatal\<close>,
  \<open>Fatalf\<close>, \<open>SkipNow\<close>, \<open>Skip\<close> or \<open>Skipf\<close>.  The functions that the target calls are not
  visited.
\<close>

theorem CheckConcurrentTesting_reports:
  "(\<exists>d \<in> set (CheckConcurrentTesting prog). node d = Go gostmt) \<longleftrightarrow>
     inInitialFunction prog (Go gostmt) \<and>
     (\<exists>fn. goTarget gostmt = Some fn \<and> containsFatalCall prog (fn_id fn))"
proof
  assume "\<exists>d \<in> set (CheckConcurrentTesting prog). node d = Go gostmt"
  then obtain d where d: "d \<in> set (CheckConcurrentTesting prog)" "node d = Go gostmt" by blast
  then obtain ssafn block g fn where
    w: "ssafn \<in> set (InitialFunctions prog)" "block \<in> set (FuncBlocks prog (fn_id ssafn))"
       "Go g \<in> set (Instrs block)" "goTarget g = Some fn"
       "d \<in> set (goroutineReports g (FuncBlocks prog (fn_id fn)))"
    unfolding CheckConcurrentTesting_set by blast
  from goroutineReports_node [OF w(5)] d(2) have "g = gostmt" by simp
  moreover from w(5) have "goroutineReports g (FuncBlocks prog (fn_id fn)) \<noteq> []" by auto
  then have "containsFatalCall prog (fn_id fn)" by (simp add: goroutineReports_nonempty)
  ultimately show "inInitialFunction prog (Go gostmt) \<and>
     (\<exists>fn. goTarget gostmt = Some fn \<and> containsFatalCall prog (fn_id fn))"
    using w by (auto simp: inInitialFunction_def list_ex_iff)
next
  assume a: "inInitialFunction prog (Go gostmt) \<and>
     (\<exists>fn. goTarget gostmt = Some fn \<and> containsFatalCall prog (fn_id fn))"
  then obtain fn where fn: "goTarget gostmt = Some fn" "containsFatalCall prog (fn_id fn)" by blast
  then have "goroutineReports gostmt (FuncBlocks prog (fn_id fn)) \<noteq> []"
    by (simp add: goroutineReports_nonempty)
  then obtain d where d: "d \<in> set (goroutineReports gostmt (FuncBlocks prog (fn_id fn)))"
    by (meson last_in_set)
  from a obtain ssafn block where "ssafn \<in> set (InitialFunctions prog)"
    "block \<in> set (FuncBlocks prog (fn_id ssafn))" "Go gostmt \<in> set (Instrs block)"
    by (auto simp: inInitialFunction_def list_ex_iff)
  with fn d have "d \<in> set (CheckConcurrentTesting prog)"
    unfolding CheckConcurrentTesting_set by blast
  with goroutineReports_node [OF d] show "\<exists>d \<in> set (CheckConcurrentTesting prog). node d = Go gostmt"
    by blast
qed

lemma fatalCall_name: "testFatalName (Common (fatalCall a b)) = Some ''Fatal''"
  by (simp add: testFatalName_def fatalCall_def mkCall_def staticFn_def IsInvoke_def StaticCallee_def IsType_def)

lemma helperCall_name: "testFatalName (Common (helperCall a b)) = None"
  by (simp add: testFatalName_def helperCall_def mkCall_def userFn_def IsInvoke_def StaticCallee_def)

lemma helperCall_callee: "StaticCallee (Common (helperCall a b)) = Some (userFn ''main.helper'' ''helper'')"
  by (simp add: helperCall_def mkCall_def StaticCallee_def)

lemma testProgram_blocks:
  "FuncBlocks (testProgram target) ''main.TestX'' = [\<lparr>Instrs = [Go (goStmt 1 target), Jump], Succs = [], Preds = []\<rparr>]"
  "FuncBlocks (testProgram target) ''main.worker'' = [\<lparr>Instrs = [Call (helperCall 2 (''main.worker'', 0))], Succs = [], Preds = []\<rparr>]"
  "FuncBlocks (testProgram target) ''main.helper'' = [\<lparr>Instrs = [Call (fatalCall 3 (''main.helper'', 0))], Succs = [], Preds = []\<rparr>]"
  "InitialFunctions (testProgram target) = [userFn ''main.TestX'' ''TestX'', userFn ''main.worker'' ''worker'', userFn ''main.helper'' ''helper'']"
  by (simp_all add: testProgram_def)

lemma userFn_id: "fn_id (userFn f s) = f"
  by (simp add: userFn_def)

lemma goStmt_target: "goTarget (goStmt a fn) = Some fn"
  by (simp add: goTarget_def goStmt_def)

lemmas test_simps =
  testProgram_blocks userFn_id goStmt_target fatalCall_name helperCall_name helperCall_callee
  containsFatalCall_def isFatalCall_def inInitialFunction_def

text \<open>
  A goroutine that runs \<open>helper\<close> is reported; one that runs \<open>worker\<close> is not.
\<close>

theorem CheckConcurrentTesting_witness:
  "(\<exists>d \<in> set (CheckConcurrentTesting (testProgram (userFn ''main.helper'' ''helper''))).
      node d = Go (goStmt 1 (userFn ''main.helper'' ''helper''))) \<and>
   \<not> (\<exists>d \<in> set (CheckConcurrentTesting (testProgram (userFn ''main.worker'' ''worker''))).
      node d = Go (goStmt 1 (userFn ''main.worker'' ''worker'')))"
  using CheckConcurrentTesting_reports [of "testProgram (userFn ''main.helper'' ''helper'')" "goStmt 1 (userFn ''main.helper'' ''helper'')"]
        CheckConcurrentTesting_reports [of "testProgram (userFn ''main.worker'' ''worker'')" "goStmt 1 (userFn ''main.worker'' ''worker'')"]
  by (simp add: test_simps)

text \<open>
  Claim C6 as worded fails: \<open>worker\<close> transitively contains the call of \<open>t.Fatal\<close>,
  through \<open>helper\<close>, and the goroutine that runs \<open>worker\<close> is not reported.
\<close>

theorem CheckConcurrentTesting_counterexample:
  "inInitialFunction (testProgram (userFn ''main.worker'' ''worker'')) (Go (goStmt 1 (userFn ''main.worker'' ''worker''))) \<and>
   goTarget (goStmt 1 (userFn ''main.worker'' ''worker'')) = Some (userFn ''main.worker'' ''worker'') \<and>
   transitivelyContainsFatalCall (testProgram (userFn ''main.worker'' ''worker'')) (fn_id (userFn ''main.worker'' ''worker'')) \<and>
   CheckConcurrentTesting (testProgram (userFn ''main.worker'' ''worker'')) = []"
proof -
  let ?p = "testProgram (userFn ''main.worker'' ''worker'')"
  have "containsFatalCall ?p ''main.helper''"
    by (simp add: test_simps)
  then have "transitivelyContainsFatalCall ?p (fn_id (userFn ''main.helper'' ''helper''))"
    by (simp add: userFn_id transitivelyContainsFatalCall.own)
  then have "transitivelyContainsFatalCall ?p ''main.worker''"
    by (rule transitivelyContainsFatalCall.callee [where block = "\<lparr>Instrs = [Call (helperCall 2 (''main.worker'', 0))], Succs = [], Preds = []\<rparr>"
          and call = "helperCall 2 (''main.worker'', 0)", rotated 3])
       (simp_all add: test_simps)
  moreover have "CheckConcurrentTesting ?p = []"
    by (simp add: CheckConcurrentTesting_def goReports_def goroutineReports_def callReports_def test_simps)
  ultimately show ?thesis
    by (simp add: test_simps)
qed

section \<open>The double-lock checker: order of the diagnostics\<close>

lemma collectInstrs_skip:
  "(\<And>c. ins \<noteq> Call c) \<Longrightarrow> collectInstrs (ins # rest) m = collectInstrs rest m"
  by (cases ins) auto

lemma lockCallsOfInstrs_Cons:
  "lockCallsOfInstrs (ins # rest) =
     (case ins of Call call \<Rightarrow> (if isCallToLock (Common call) then [call] else []) | _ \<Rightarrow> []) @ lockCallsOfInstrs rest"
  by (simp add: lockCallsOfInstrs_def)

lemma collectInstrs_order:
  "collectInstrs instrs m = Inr m' \<Longrightarrow>
   lockList m' k = lockList m k @ withKey k (lockCallsOfInstrs instrs)"
proof (induction instrs arbitrary: m)
  case Nil
  then show ?case by (simp add: lockCallsOfInstrs_def withKey_def)
next
  case (Cons ins rest)
  show ?case
  proof (cases "\<exists>c. ins = Call c")
    case True
    then obtain call where Call: "ins = Call call" by blast
    show ?thesis
    proof (cases "isCallToLock (Common call)")
      case True
      with Cons.prems Call obtain lockValue where lv: "getLockPrefix call = Inr lockValue"
        and rec: "collectInstrs rest (m(lockValue \<mapsto> lockList m lockValue @ [call])) = Inr m'"
        by (auto simp: bind_Inr_iff)
      from Cons.IH [OF rec] lv True Call show ?thesis
        by (auto simp: lockCallsOfInstrs_Cons withKey_def lockList_def)
    next
      case False
      with Cons.prems Call have "collectInstrs rest m = Inr m'" by simp
      from Cons.IH [OF this] False Call show ?thesis
        by (simp add: lockCallsOfInstrs_Cons withKey_def)
    qed
  next
    case False
    then have nc: "\<And>c. ins \<noteq> Call c" by blast
    from Cons.prems have "collectInstrs rest m = Inr m'" by (simp only: collectInstrs_skip [OF nc])
    from Cons.IH [OF this] show ?thesis
      using nc by (cases ins) (auto simp: lockCallsOfInstrs_Cons)
  qed
qed

lemma collectBlocks_order:
  "collectBlocks blocks m = Inr m' \<Longrightarrow>
   lockList m' k = lockList m k @ withKey k (lockCallsOfBlocks blocks)"
proof (induction blocks arbitrary: m)
  case Nil
  then show ?case by (simp add: lockCallsOfBlocks_def withKey_def)
next
  case (Cons bb rest)
  from Cons.prems obtain m1 where a: "collectInstrs (Instrs bb) m = Inr m1"
    and b: "collectBlocks rest m1 = Inr m'"
    by (auto simp: bind_Inr_iff)
  from collectInstrs_order [OF a] Cons.IH [OF b] show ?case
    by (simp add: lockCallsOfBlocks_def withKey_def)
qed

lemma lockList_mergeLocks: "lockList (mergeLocks acc r) k = lockList acc k @ lockList r k"
  by (simp add: mergeLocks_def lockList_def split: option.splits)

lemma collectAll_order:
  "collectAll prog fns m = Inr m' \<Longrightarrow>
   lockList m' k = lockList m k @ withKey k (lockCallsOf prog fns)"
proof (induction fns arbitrary: m)
  case Nil
  then show ?case by (simp add: lockCallsOf_def withKey_def)
next
  case (Cons fn rest)
  from Cons.prems obtain r where a: "collectLockInstrs prog fn = Inr r"
    and b: "collectAll prog rest (mergeLocks m r) = Inr m'"
    by (auto simp: bind_Inr_iff)
  from a have "lockList r k = withKey k (lockCallsOfBlocks (FuncBlocks prog (fn_id fn)))"
    unfolding collectLockInstrs_def by (auto dest: collectBlocks_order [where k = k] simp: lockList_def)
  with Cons.IH [OF b] show ?case
    by (simp add: lockList_mergeLocks lockCallsOf_def withKey_def)
qed

lemma result_cases: "(\<exists>x. r = Inr x) \<or> r = Inl Panic" for r :: "'a result"
  by (cases r) (auto intro: error.exhaust)

lemma checkKeys_char:
  "checkKeys c prog m ks =
     (if \<exists>k \<in> set ks. keyReports c prog k (lockList m k) = Inl Panic then Inl Panic
      else Inr (concat (map (\<lambda>k. projr (keyReports c prog k (lockList m k))) ks)))"
proof (induction ks)
  case Nil
  then show ?case by simp
next
  case (Cons k ks)
  from result_cases [of "keyReports c prog k (lockList m k)"] show ?case
  proof
    assume "\<exists>x. keyReports c prog k (lockList m k) = Inr x"
    then obtain x where x: "keyReports c prog k (lockList m k) = Inr x" by blast
    then show ?thesis using Cons.IH by (auto simp: bind_def)
  next
    assume "keyReports c prog k (lockList m k) = Inl Panic"
    then show ?thesis by (simp add: bind_def)
  qed
qed

lemma mset_concat_map_perm:
  "mset ks1 = mset ks2 \<Longrightarrow> mset (concat (map h ks1)) = mset (concat (map h ks2))"
proof -
  assume a: "mset ks1 = mset ks2"
  have "mset (concat (map h ks)) = sum_mset (image_mset (\<lambda>k. mset (h k)) (mset ks))" for ks
    by (induction ks) simp_all
  with a show ?thesis by simp
qed

lemma checkKeys_perm:
  assumes "mset ks1 = mset ks2"
  shows "map_sum id mset (checkKeys c prog m ks1) = map_sum id mset (checkKeys c prog m ks2)"
proof -
  from assms have s: "set ks1 = set ks2" by (rule mset_eq_setD)
  have m: "mset (concat (map (\<lambda>k. projr (keyReports c prog k (lockList m k))) ks1)) =
           mset (concat (map (\<lambda>k. projr (keyReports c prog k (lockList m k))) ks2))"
    using assms by (rule mset_concat_map_perm)
  show ?thesis
    unfolding checkKeys_char s using m by simp
qed

text \<open>
  Claim C8, as the code has it.  Two runs of \<open>CheckDoubleLock\<close> on the same program that
  visit the keys of the map in different orders emit the same diagnostics as a multiset
  (or both panic).  The lock instructions of a key are those of the traversal order of
  the program (function order, then block order, then instruction index) with that key;
  the diagnostics of a key are emitted together, in the order of the pairs of that list;
  and the diagnostics of a run are those of its keys, one key after the other, in the
  order in which the run visits the keys.
\<close>

theorem CheckDoubleLock_order:
  "(mset order1 = mset order2 \<longrightarrow>
      map_sum id mset (CheckDoubleLock c prog order1) = map_sum id mset (CheckDoubleLock c prog order2)) \<and>
   (collectAll prog (InitialFunctions prog) Map.empty = Inr lockInstructions \<longrightarrow>
      lockList lockInstructions k = withKey k (lockCallsOf prog (InitialFunctions prog)) \<and>
      CheckDoubleLock c prog [k] = keyReports c prog k (lockList lockInstructions k) \<and>
      (\<forall>order ds. CheckDoubleLock c prog order = Inr ds \<longrightarrow>
         ds = concat (map (\<lambda>k. projr (CheckDoubleLock c prog [k])) order)))"
proof -
  have perm: "map_sum id mset (CheckDoubleLock c prog order1) = map_sum id mset (CheckDoubleLock c prog order2)"
    if "mset order1 = mset order2"
  proof (cases "collectAll prog (InitialFunctions prog) Map.empty")
    case (Inl e)
    then show ?thesis by (simp add: CheckDoubleLock_def bind_def)
  next
    case (Inr m)
    then show ?thesis using checkKeys_perm [OF that] by (simp add: CheckDoubleLock_def bind_def)
  qed
  have rest: "lockList lockInstructions k = withKey k (lockCallsOf prog (InitialFunctions prog)) \<and>
      CheckDoubleLock c prog [k] = keyReports c prog k (lockList lockInstructions k) \<and>
      (\<forall>order ds. CheckDoubleLock c prog order = Inr ds \<longrightarrow>
         ds = concat (map (\<lambda>k. projr (CheckDoubleLock c prog [k])) order))"
    if a: "collectAll prog (InitialFunctions prog) Map.empty = Inr lockInstructions"
  proof -
    have l: "lockList lockInstructions k = withKey k (lockCallsOf prog (InitialFunctions prog))"
      using collectAll_order [OF a, of k] by (simp add: lockList_def)
    have one: "CheckDoubleLock c prog [k'] = keyReports c prog k' (lockList lockInstructions k')" for k'
    proof (cases "keyReports c prog k' (lockList lockInstructions k')")
      case (Inl e)
      then show ?thesis using a by (simp add: CheckDoubleLock_def bind_def)
    next
      case (Inr ds)
      then show ?thesis using a by (simp add: CheckDoubleLock_def bind_def)
    qed
    have all: "ds = concat (map (\<lambda>k. projr (CheckDoubleLock c prog [k])) order)"
      if "CheckDoubleLock c prog order = Inr ds" for order ds
    proof -
      from that a have "checkKeys c prog lockInstructions order = Inr ds"
        by (simp add: CheckDoubleLock_def bind_def)
      then have "ds = concat (map (\<lambda>k. projr (keyReports c prog k (lockList lockInstructions k))) order)"
        unfolding checkKeys_char by (simp split: if_splits)
      then show ?thesis by (simp only: one)
    qed
    from l one all show ?thesis by blast
  qed
  from perm rest show ?thesis by blast
qed

lemma mutexLock_t1_not_unlock: "\<not> isCallToUnlock (Common (mutexLock a b ''t1''))"
  by (simp add: mutexLock_def mkCall_def staticFn_def isCallToUnlock_def
        IsCallTo_def CallName_def IsInvoke_def ToLower_def lowerByte_def Contains_def)

lemma twoMutexes_prog:
  "FuncBlocks (oneBlockProgram ''main.f'' twoMutexes []) ''main.f'' = [\<lparr>Instrs = twoMutexes, Succs = [], Preds = []\<rparr>]"
  "InitialFunctions (oneBlockProgram ''main.f'' twoMutexes []) = [\<lparr>fn_id = ''main.f'', Object = None, Recv = None\<rparr>]"
  "DisplayPosition (oneBlockProgram ''main.f'' twoMutexes []) a = ''pos''"
  by (simp_all add: oneBlockProgram_def)

lemma twoMutexes_collect:
  "collectAll (oneBlockProgram ''main.f'' twoMutexes []) (InitialFunctions (oneBlockProgram ''main.f'' twoMutexes [])) Map.empty
     = Inr [''t0'' \<mapsto> [mutexLock 1 (''main.f'', 0) ''t0'', mutexLock 3 (''main.f'', 0) ''t0''],
            ''t1'' \<mapsto> [mutexLock 2 (''main.f'', 0) ''t1'', mutexLock 4 (''main.f'', 0) ''t1'']]"
proof -
  have "collectBlocks [\<lparr>Instrs = twoMutexes, Succs = [], Preds = []\<rparr>] Map.empty
     = Inr [''t0'' \<mapsto> [mutexLock 1 (''main.f'', 0) ''t0'', mutexLock 3 (''main.f'', 0) ''t0''],
            ''t1'' \<mapsto> [mutexLock 2 (''main.f'', 0) ''t1'', mutexLock 4 (''main.f'', 0) ''t1'']]"
    by (simp add: twoMutexes_def example_simps lockList_def fun_upd_twist)
  moreover have "mergeLocks Map.empty m = m" for m
    by (auto simp: mergeLocks_def lockList_def fun_eq_iff split: option.splits)
  moreover have "FuncBlocks (oneBlockProgram ''main.f'' twoMutexes [])
      (fn_id \<lparr>fn_id = ''main.f'', Object = None, Recv = None\<rparr>) = [\<lparr>Instrs = twoMutexes, Succs = [], Preds = []\<rparr>]"
    by (simp add: twoMutexes_prog)
  ultimately show ?thesis
    by (simp only: twoMutexes_prog(2) collectAll.simps collectLockInstrs_def bind_def sum.case)
qed

lemma twoMutexes_same:
  "isLockToLockInSameBlock (oneBlockProgram ''main.f'' twoMutexes [])
     (mutexLock a (''main.f'', 0) r) (mutexLock a' (''main.f'', 0) r')
   = Inr ((a = 1 \<and> a' \<in> {2, 3, 4}) \<or> (a = 2 \<and> a' \<in> {3, 4}) \<or> (a = 3 \<and> a' = 4))"
  if "a \<in> {1, 2, 3, 4}" "a' \<in> {1, 2, 3, 4}" "r \<in> {''t0'', ''t1''}" 
  using that
  by (auto simp: isLockToLockInSameBlock_def twoMutexes_def example_simps mutexLock_t1_not_unlock)


lemma twoMutexes_double:
  "isDoubleLock noServices (oneBlockProgram ''main.f'' twoMutexes [])
     (mutexLock a (''main.f'', 0) r) (mutexLock a' (''main.f'', 0) r') k
   = Inr ((a = 1 \<and> a' \<in> {2, 3, 4}) \<or> (a = 2 \<and> a' \<in> {3, 4}) \<or> (a = 3 \<and> a' = 4))"
  if "a \<in> {1, 2, 3, 4}" "a' \<in> {1, 2, 3, 4}" "r \<in> {''t0'', ''t1''}"
  using twoMutexes_same [OF that]
  by (simp add: isDoubleLock_def crossFunction_def isInLoop_def noServices_def Let_def bind_def
        mutexLock_fields)

lemma twoMutexes_t0:
  "keyReports noServices (oneBlockProgram ''main.f'' twoMutexes []) ''t0''
     [mutexLock 1 (''main.f'', 0) ''t0'', mutexLock 3 (''main.f'', 0) ''t0'']
   = Inr [lockReport (mutexLock 1 (''main.f'', 0) ''t0'')]"
  by (simp add: pairReports_def twoMutexes_double bind_def mutexLock_fields lockReport_def twoMutexes_prog)

lemma twoMutexes_lists:
  "lockList [''t0'' \<mapsto> [mutexLock 1 (''main.f'', 0) ''t0'', mutexLock 3 (''main.f'', 0) ''t0''],
            ''t1'' \<mapsto> [mutexLock 2 (''main.f'', 0) ''t1'', mutexLock 4 (''main.f'', 0) ''t1'']] ''t0''
     = [mutexLock 1 (''main.f'', 0) ''t0'', mutexLock 3 (''main.f'', 0) ''t0'']"
  "lockList [''t0'' \<mapsto> [mutexLock 1 (''main.f'', 0) ''t0'', mutexLock 3 (''main.f'', 0) ''t0''],
            ''t1'' \<mapsto> [mutexLock 2 (''main.f'', 0) ''t1'', mutexLock 4 (''main.f'', 0) ''t1'']] ''t1''
     = [mutexLock 2 (''main.f'', 0) ''t1'', mutexLock 4 (''main.f'', 0) ''t1'']"
  by (simp_all add: lockList_def)

lemma twoMutexes_t1:
  "keyReports noServices (oneBlockProgram ''main.f'' twoMutexes []) ''t1''
     [mutexLock 2 (''main.f'', 0) ''t1'', mutexLock 4 (''main.f'', 0) ''t1'']
   = Inr [lockReport (mutexLock 2 (''main.f'', 0) ''t1'')]"
  by (simp add: pairReports_def twoMutexes_double bind_def mutexLock_fields lockReport_def twoMutexes_prog)

lemma twoMutexes_runs:
  "CheckDoubleLock noServices (oneBlockProgram ''main.f'' twoMutexes []) [''t0'', ''t1'']
     = Inr [lockReport (mutexLock 1 (''main.f'', 0) ''t0''), lockReport (mutexLock 2 (''main.f'', 0) ''t1'')]"
  "CheckDoubleLock noServices (oneBlockProgram ''main.f'' twoMutexes []) [''t1'', ''t0'']
     = Inr [lockReport (mutexLock 2 (''main.f'', 0) ''t1''), lockReport (mutexLock 1 (''main.f'', 0) ''t0'')]"
  by (simp_all only: CheckDoubleLock_def twoMutexes_collect bind_def sum.case checkKeys.simps
        twoMutexes_lists twoMutexes_t0 twoMutexes_t1 append.simps)

text \<open>
  Claim C8 as worded fails.  In the block \<open>t0.Lock(); t1.Lock(); t0.Lock(); t1.Lock()\<close>
  both keys have a double lock.  A run that visits the key \<open>t1\<close> first reports the
  instruction at index 1 before the instruction at index 0, and emits its diagnostics
  in another order than a run that visits \<open>t0\<close> first.
\<close>

theorem CheckDoubleLock_order_counterexample:
  "dom [''t0'' \<mapsto> [mutexLock 1 (''main.f'', 0) ''t0'', mutexLock 3 (''main.f'', 0) ''t0''],
        ''t1'' \<mapsto> [mutexLock 2 (''main.f'', 0) ''t1'', mutexLock 4 (''main.f'', 0) ''t1'']] = set [''t0'', ''t1''] \<and>
   collectAll (oneBlockProgram ''main.f'' twoMutexes []) (InitialFunctions (oneBlockProgram ''main.f'' twoMutexes [])) Map.empty
     = Inr [''t0'' \<mapsto> [mutexLock 1 (''main.f'', 0) ''t0'', mutexLock 3 (''main.f'', 0) ''t0''],
            ''t1'' \<mapsto> [mutexLock 2 (''main.f'', 0) ''t1'', mutexLock 4 (''main.f'', 0) ''t1'']] \<and>
   mset [''t0'', ''t1''] = mset [''t1'', ''t0''] \<and>
   twoMutexes ! 0 = Call (mutexLock 1 (''main.f'', 0) ''t0'') \<and>
   twoMutexes ! 1 = Call (mutexLock 2 (''main.f'', 0) ''t1'') \<and>
   CheckDoubleLock noServices (oneBlockProgram ''main.f'' twoMutexes []) [''t1'', ''t0'']
     = Inr [lockReport (mutexLock 2 (''main.f'', 0) ''t1''), lockReport (mutexLock 1 (''main.f'', 0) ''t0'')] \<and>
   CheckDoubleLock noServices (oneBlockProgram ''main.f'' twoMutexes []) [''t0'', ''t1'']
     \<noteq> CheckDoubleLock noServices (oneBlockProgram ''main.f'' twoMutexes []) [''t1'', ''t0'']"
proof -
  have "lockReport (mutexLock 1 (''main.f'', 0) ''t0'') \<noteq> lockReport (mutexLock 2 (''main.f'', 0) ''t1'')"
    by (simp add: lockReport_def mutexLock_def mkCall_def)
  moreover have "{''t1'', ''t0''} = {''t0'', ''t1''}" by auto
  ultimately show ?thesis
    by (simp add: twoMutexes_runs twoMutexes_collect) (simp add: twoMutexes_def)
qed

text \<open>The two runs on that block, and the lock instructions of the key \<open>t0\<close>.\<close>

theorem CheckDoubleLock_order_witness:
  "map_sum id mset (CheckDoubleLock noServices (oneBlockProgram ''main.f'' twoMutexes []) [''t0'', ''t1''])
     = map_sum id mset (CheckDoubleLock noServices (oneBlockProgram ''main.f'' twoMutexes []) [''t1'', ''t0'']) \<and>
   withKey ''t0'' (lockCallsOf (oneBlockProgram ''main.f'' twoMutexes [])
       (InitialFunctions (oneBlockProgram ''main.f'' twoMutexes [])))
     = [mutexLock 1 (''main.f'', 0) ''t0'', mutexLock 3 (''main.f'', 0) ''t0'']"
proof -
  have p: "mset [''t0'', ''t1''] = mset [''t1'', ''t0'']" by simp
  let ?M = "[''t0'' \<mapsto> [mutexLock 1 (''main.f'', 0) ''t0'', mutexLock 3 (''main.f'', 0) ''t0''],
            ''t1'' \<mapsto> [mutexLock 2 (''main.f'', 0) ''t1'', mutexLock 4 (''main.f'', 0) ''t1'']]"
  from CheckDoubleLock_order [of "[''t0'', ''t1'']" "[''t1'', ''t0'']" noServices
      "oneBlockProgram ''main.f'' twoMutexes []" ?M "''t0''"] p twoMutexes_collect
  have "map_sum id mset (CheckDoubleLock noServices (oneBlockProgram ''main.f'' twoMutexes []) [''t0'', ''t1''])
     = map_sum id mset (CheckDoubleLock noServices (oneBlockProgram ''main.f'' twoMutexes []) [''t1'', ''t0''])"
    and "lockList ?M ''t0'' = withKey ''t0'' (lockCallsOf (oneBlockProgram ''main.f'' twoMutexes [])
       (InitialFunctions (oneBlockProgram ''main.f'' twoMutexes [])))"
    by blast+
  then show ?thesis by (simp only: twoMutexes_lists)
qed

section \<open>The stdlib-knowledge pass is idempotent\<close>

lemma RemovePred_frame:
  "length (RemovePred blocks succ p) = length blocks"
  "c < length blocks \<Longrightarrow> Instrs (RemovePred blocks succ p ! c) = Instrs (blocks ! c)"
  "c < length blocks \<Longrightarrow> Succs (RemovePred blocks succ p ! c) = Succs (blocks ! c)"
  by (auto simp: RemovePred_def nth_list_update)

lemma rewriteAt_frame:
  assumes "rewriteAt blocks b p = Inr blocks'" "b < length blocks"
  shows "length blocks' = length blocks"
    and "length (Succs (blocks' ! b)) = 1"
    and "c < length blocks \<Longrightarrow> c \<noteq> b \<Longrightarrow> Instrs (blocks' ! c) = Instrs (blocks ! c)"
    and "c < length blocks \<Longrightarrow> c \<noteq> b \<Longrightarrow> Succs (blocks' ! c) = Succs (blocks ! c)"
  using assms
  by (auto simp: rewriteAt_def Let_def RemovePred_frame split: if_splits)

lemma scanLoop_Inr:
  "scanLoop blocks b instrs is = Inr blocks' \<Longrightarrow> b < length blocks \<Longrightarrow>
   length blocks' = length blocks \<and>
   (\<forall>c < length blocks. c \<noteq> b \<longrightarrow> Instrs (blocks' ! c) = Instrs (blocks ! c) \<and> Succs (blocks' ! c) = Succs (blocks ! c)) \<and>
   ((blocks' = blocks \<and> list_all (\<lambda>i. matchAt (Instrs (blocks ! b)) instrs i = Inr False) is) \<or>
    length (Succs (blocks' ! b)) = 1)"
proof (induction "is" arbitrary: blocks)
  case Nil
  then show ?case by simp
next
  case (Cons i rest)
  from Cons.prems(1) obtain found where f: "matchAt (Instrs (blocks ! b)) instrs i = Inr found"
    and r: "(if found
       then bind (rewriteAt blocks b (instrs ! (i + 2))) (\<lambda>blocks'. scanLoop blocks' b instrs rest)
       else scanLoop blocks b instrs rest) = Inr blocks'"
    by (auto simp: bind_Inr_iff)
  show ?case
  proof (cases found)
    case False
    with r have "scanLoop blocks b instrs rest = Inr blocks'" by simp
    from Cons.IH [OF this Cons.prems(2)] f False show ?thesis by simp
  next
    case True
    with r obtain blocks1 where rw: "rewriteAt blocks b (instrs ! (i + 2)) = Inr blocks1"
      and sc: "scanLoop blocks1 b instrs rest = Inr blocks'"
      by (auto simp: bind_Inr_iff)
    note fr = rewriteAt_frame [OF rw Cons.prems(2)]
    have b1: "b < length blocks1" using fr(1) Cons.prems(2) by simp
    from Cons.IH [OF sc b1] have
      l: "length blocks' = length blocks1"
      and o: "\<forall>c < length blocks1. c \<noteq> b \<longrightarrow> Instrs (blocks' ! c) = Instrs (blocks1 ! c) \<and> Succs (blocks' ! c) = Succs (blocks1 ! c)"
      and d: "(blocks' = blocks1 \<and> list_all (\<lambda>i. matchAt (Instrs (blocks1 ! b)) instrs i = Inr False) rest) \<or>
              length (Succs (blocks' ! b)) = 1"
      by blast+
    from d fr(2) have s1: "length (Succs (blocks' ! b)) = 1" by auto
    have l': "length blocks' = length blocks" using l fr(1) by simp
    have o': "\<forall>c < length blocks. c \<noteq> b \<longrightarrow> Instrs (blocks' ! c) = Instrs (blocks ! c) \<and> Succs (blocks' ! c) = Succs (blocks ! c)"
    proof (intro allI impI)
      fix c assume c: "c < length blocks" "c \<noteq> b"
      then have "c < length blocks1" using fr(1) by simp
      with o c have "Instrs (blocks' ! c) = Instrs (blocks1 ! c)" "Succs (blocks' ! c) = Succs (blocks1 ! c)" by auto
      with fr(3,4) [OF c] show "Instrs (blocks' ! c) = Instrs (blocks ! c) \<and> Succs (blocks' ! c) = Succs (blocks ! c)" by simp
    qed
    from s1 l' o' show ?thesis by blast
  qed
qed

lemma scanLoop_quiet:
  "list_all (\<lambda>i. matchAt (Instrs (blocks ! b)) instrs i = Inr False) is \<Longrightarrow>
   scanLoop blocks b instrs is = Inr blocks"
  by (induction "is") (simp_all add: bind_def)

lemma processBlock_quiet: "quiet (blocks ! b) \<Longrightarrow> processBlock blocks b = Inr blocks"
  by (auto simp: quiet_def processBlock_def Let_def scanLoop_quiet)

lemma processBlock_Inr:
  assumes "processBlock blocks b = Inr blocks'" "b < length blocks"
  shows "length blocks' = length blocks"
    and "quiet (blocks' ! b)"
    and "\<forall>c < length blocks. c \<noteq> b \<longrightarrow> Instrs (blocks' ! c) = Instrs (blocks ! c) \<and> Succs (blocks' ! c) = Succs (blocks ! c)"
proof -
  let ?block = "blocks ! b"
  have fr: "length blocks' = length blocks \<and>
    (\<forall>c < length blocks. c \<noteq> b \<longrightarrow> Instrs (blocks' ! c) = Instrs (blocks ! c) \<and> Succs (blocks' ! c) = Succs (blocks ! c))"
  proof (cases "length (Instrs ?block) < 3 \<or> length (Succs ?block) \<noteq> 2")
    case True
    with assms have "blocks' = blocks" by (auto simp: processBlock_def Let_def split: if_splits)
    then show ?thesis by simp
  next
    case False
    with assms have "scanLoop blocks b (nonDebug (Instrs ?block)) [0..<length (nonDebug (Instrs ?block))] = Inr blocks'"
      by (auto simp: processBlock_def Let_def)
    from scanLoop_Inr [OF this assms(2)] show ?thesis by blast
  qed
  from fr show "length blocks' = length blocks" by blast
  from fr show "\<forall>c < length blocks. c \<noteq> b \<longrightarrow> Instrs (blocks' ! c) = Instrs (blocks ! c) \<and> Succs (blocks' ! c) = Succs (blocks ! c)"
    by blast
  show "quiet (blocks' ! b)"
  proof (cases "length (Instrs ?block) < 3 \<or> length (Succs ?block) \<noteq> 2")
    case True
    with assms have "blocks' = blocks" by (auto simp: processBlock_def Let_def split: if_splits)
    with True show ?thesis by (auto simp: quiet_def)
  next
    case False
    with assms have "scanLoop blocks b (nonDebug (Instrs ?block)) [0..<length (nonDebug (Instrs ?block))] = Inr blocks'"
      by (auto simp: processBlock_def Let_def)
    from scanLoop_Inr [OF this assms(2)]
    have "(blocks' = blocks \<and> list_all (\<lambda>i. matchAt (Instrs ?block) (nonDebug (Instrs ?block)) i = Inr False)
              [0..<length (nonDebug (Instrs ?block))]) \<or> length (Succs (blocks' ! b)) = 1"
      by blast
    then show ?thesis by (auto simp: quiet_def)
  qed
qed

lemma quiet_cong: "Instrs x = Instrs y \<Longrightarrow> Succs x = Succs y \<Longrightarrow> quiet x = quiet y"
  by (simp add: quiet_def)

lemma blocksLoop_Inr:
  "blocksLoop blocks bs = Inr blocks' \<Longrightarrow> \<forall>b \<in> set bs. b < length blocks \<Longrightarrow>
   \<forall>c < length blocks. quiet (blocks ! c) \<or> c \<in> set bs \<Longrightarrow>
   length blocks' = length blocks \<and> (\<forall>c < length blocks'. quiet (blocks' ! c))"
proof (induction bs arbitrary: blocks)
  case Nil
  then show ?case by simp
next
  case (Cons b rest)
  from Cons.prems(1) obtain blocks1 where p: "processBlock blocks b = Inr blocks1"
    and l: "blocksLoop blocks1 rest = Inr blocks'"
    by (auto simp: bind_Inr_iff)
  from Cons.prems(2) have b: "b < length blocks" by simp
  note pb = processBlock_Inr [OF p b]
  have r: "\<forall>b \<in> set rest. b < length blocks1" using Cons.prems(2) pb(1) by simp
  have q: "\<forall>c < length blocks1. quiet (blocks1 ! c) \<or> c \<in> set rest"
  proof (intro allI impI)
    fix c assume c: "c < length blocks1"
    show "quiet (blocks1 ! c) \<or> c \<in> set rest"
    proof (cases "c = b")
      case True
      then show ?thesis using pb(2) by simp
    next
      case False
      with c pb have "Instrs (blocks1 ! c) = Instrs (blocks ! c)" "Succs (blocks1 ! c) = Succs (blocks ! c)"
        by auto
      then have "quiet (blocks1 ! c) = quiet (blocks ! c)" by (rule quiet_cong)
      with Cons.prems(3) c pb(1) False show ?thesis by auto
    qed
  qed
  from Cons.IH [OF l r q] pb(1) show ?case by simp
qed

lemma blocksLoop_quiet:
  "\<forall>b \<in> set bs. quiet (blocks ! b) \<Longrightarrow> blocksLoop blocks bs = Inr blocks"
  by (induction bs) (simp_all add: processBlock_quiet bind_def)

lemma applyStdlibKnowledge_Inr:
  assumes "applyStdlibKnowledge blocks = Inr blocks'"
  shows "applyStdlibKnowledge blocks' = Inr blocks'"
proof (cases "length blocks = 0")
  case True
  with assms show ?thesis by (simp add: applyStdlibKnowledge_def)
next
  case False
  with assms have "blocksLoop blocks [0..<length blocks] = Inr blocks'"
    by (simp add: applyStdlibKnowledge_def)
  from blocksLoop_Inr [OF this] have "\<forall>c < length blocks'. quiet (blocks' ! c)" by simp
  then have "blocksLoop blocks' [0..<length blocks'] = Inr blocks'"
    by (intro blocksLoop_quiet) simp
  then show ?thesis by (simp add: applyStdlibKnowledge_def)
qed

text \<open>
  Claim C7.  Applying the pass to the blocks it returned gives those blocks again, with
  the same instruction lists, successor lists and predecessor lists; when the first
  application panics, so does the composition.
\<close>

theorem applyStdlibKnowledge_idempotent:
  "bind (applyStdlibKnowledge blocks) applyStdlibKnowledge = applyStdlibKnowledge blocks"
proof (cases "applyStdlibKnowledge blocks")
  case (Inl e)
  then show ?thesis by (simp add: bind_def)
next
  case (Inr blocks')
  then show ?thesis using applyStdlibKnowledge_Inr [OF Inr] by (simp add: bind_def)
qed

lemma tickLoop_once: "applyStdlibKnowledge tickLoop = Inr tickLoopRewritten"
  by code_simp

text \<open>
  On the blocks of a loop over \<open>time.Tick\<close> the pass replaces the branch by a jump and
  drops the edge to the exit block; a second application changes nothing.
\<close>

theorem applyStdlibKnowledge_witness:
  "applyStdlibKnowledge tickLoop = Inr tickLoopRewritten \<and>
   tickLoopRewritten \<noteq> tickLoop \<and>
   applyStdlibKnowledge tickLoopRewritten = Inr tickLoopRewritten"
proof -
  have "tickLoopRewritten \<noteq> tickLoop"
    by (simp add: tickLoop_def tickLoopRewritten_def)
  with applyStdlibKnowledge_idempotent [of tickLoop] tickLoop_once
  show ?thesis by (simp add: bind_def)
qed

end
